theory Spec2Isabelle
  imports Complex_Main "HOL-Library.Product_Lexorder" "HOL-Library.Multiset"
begin

section \<open>Python values the scoring engine works on\<close>

text \<open>
  The engine (\<^verbatim>\<open>backend/tasks/scoring.py\<close>) receives untyped records: dictionaries from
  field names to JSON-like values. Python integers are unbounded (\<open>int\<close>); Python floats are
  idealised as \<open>real\<close> numbers, so rounding error, infinities and NaN are outside the model.
  A character of a string is a code point below 256; text with other code points is
  outside the model. The integers of a record are those a JSON parser of the interpreter
  delivers: they have no more digits than the interpreter's limit on conversions between
  \<^verbatim>\<open>int\<close> and \<^verbatim>\<open>str\<close>, so that \<^verbatim>\<open>str(n)\<close> does not raise on them.
  An exception is a value of type \<open>error\<close>; a fallible operation returns \<open>error + 'a\<close>.
\<close>

datatype error = ValueError | TypeError | KeyError | ZeroDivisionError | OverflowError | RecursionError

datatype raw =
    RNone
  | RBool bool
  | RInt int
  | RFloat real
  | RStr string
  | RList "raw list"
  | RDict "(string \<times> raw) list"

type_synonym raw_record = "string \<Rightarrow> raw option"

text \<open>\<^verbatim>\<open>t.get(key)\<close>: the value, or \<^verbatim>\<open>None\<close> when the key is absent.\<close>

definition rec_get :: "raw_record \<Rightarrow> string \<Rightarrow> raw" where
  "rec_get t k = (case t k of None \<Rightarrow> RNone | Some v \<Rightarrow> v)"

text \<open>\<^verbatim>\<open>value in (None, "")\<close> and \<^verbatim>\<open>value in (None, "", [])\<close>.\<close>

definition in_none_empty :: "raw \<Rightarrow> bool" where
  "in_none_empty v = (v = RNone \<or> v = RStr [])"

definition in_none_empty_list :: "raw \<Rightarrow> bool" where
  "in_none_empty_list v = (v = RNone \<or> v = RStr [] \<or> v = RList [])"

text \<open>Truthiness, as \<^verbatim>\<open>x or default\<close> tests it.\<close>

fun truthy :: "raw \<Rightarrow> bool" where
  "truthy RNone = False"
| "truthy (RBool b) = b"
| "truthy (RInt n) = (n \<noteq> 0)"
| "truthy (RFloat r) = (r \<noteq> 0)"
| "truthy (RStr s) = (s \<noteq> [])"
| "truthy (RList xs) = (xs \<noteq> [])"
| "truthy (RDict kvs) = (kvs \<noteq> [])"

text \<open>
  The parameters of the model. Two are library functions: \<open>str_of\<close>, the text \<^verbatim>\<open>str(v)\<close> of a
  value that is neither a string, an integer, a boolean nor \<^verbatim>\<open>None\<close> (floats, lists and
  dictionaries), and \<open>float_of_string\<close>, the value \<^verbatim>\<open>float(s)\<close> of a string (\<open>None\<close> when it
  raises). Two are settings of the interpreter: \<open>max_str_digits\<close>, the limit
  \<^verbatim>\<open>sys.get_int_max_str_digits()\<close> on the digits of an integer literal (0 when there is no
  limit), and \<open>recursion_budget\<close>, the number of nested calls of \<^verbatim>\<open>dfs\<close> that the recursion
  limit leaves when \<^verbatim>\<open>detect_cycles\<close> runs.
\<close>

record runtime =
  str_of :: "raw \<Rightarrow> string"
  float_of_string :: "string \<Rightarrow> real option"
  max_str_digits :: nat
  recursion_budget :: nat

subsection \<open>Strings and numbers\<close>

definition is_digit :: "char \<Rightarrow> bool" where
  "is_digit c = (c \<in> set ''0123456789'')"

definition digit_value :: "char \<Rightarrow> nat" where
  "digit_value c = (of_char c :: nat) - 48"

definition digits_value :: "string \<Rightarrow> nat" where
  "digits_value s = foldl (\<lambda>acc c. 10 * acc + digit_value c) 0 s"

text \<open>White space as \<^verbatim>\<open>str.strip()\<close> removes it and \<^verbatim>\<open>str.isspace()\<close> tells it: tab, line feed,
  vertical tab, form feed, carriage return, the four separators 28 to 31, space, next line
  (133) and no-break space (160).\<close>

definition is_space :: "char \<Rightarrow> bool" where
  "is_space c =
     (let n = (of_char c :: nat)
      in (9 \<le> n \<and> n \<le> 13) \<or> (28 \<le> n \<and> n \<le> 32) \<or> n = 133 \<or> n = 160)"

definition strip :: "string \<Rightarrow> string" where
  "strip s = rev (dropWhile is_space (rev (dropWhile is_space s)))"

text \<open>\<^verbatim>\<open>str.lower()\<close>: the capital letters are the code points 65 to 90, 192 to 214 and 216
  to 222, each 32 below its small letter.\<close>

definition lower_char :: "char \<Rightarrow> char" where
  "lower_char c =
     (let n = (of_char c :: nat)
      in if (65 \<le> n \<and> n \<le> 90) \<or> (192 \<le> n \<and> n \<le> 214) \<or> (216 \<le> n \<and> n \<le> 222)
         then char_of (n + 32) else c)"

definition lower :: "string \<Rightarrow> string" where
  "lower s = map lower_char s"

text \<open>\<^verbatim>\<open>str(n)\<close> for an integer.\<close>

fun show_nat :: "nat \<Rightarrow> string" where
  "show_nat n = (if n < 10 then [''0123456789'' ! n] else show_nat (n div 10) @ [''0123456789'' ! (n mod 10)])"

declare show_nat.simps [simp del]

definition show_int :: "int \<Rightarrow> string" where
  "show_int i = (if i < 0 then CHR ''-'' # show_nat (nat (- i)) else show_nat (nat i))"

text \<open>
  \<^verbatim>\<open>int(s)\<close> for a string. A string with a code point above 127 is rewritten first: code
  points below 127 stay, white space becomes a space, and any other code point (none from
  127 to 255 is a decimal digit) a question mark. Then the literal is read: white space of
  the C locale (tab to carriage return, and space) on both sides, an optional sign, decimal
  digits with single underscores between digits. Anything else raises \<^verbatim>\<open>ValueError\<close>, and
  so does a literal of more than 640 digits that exceeds the limit \<open>max_str_digits\<close>.
\<close>

definition c_space :: "char \<Rightarrow> bool" where
  "c_space c = (let n = (of_char c :: nat) in (9 \<le> n \<and> n \<le> 13) \<or> n = 32)"

definition to_ascii :: "string \<Rightarrow> string" where
  "to_ascii s =
     (if list_all (\<lambda>c. (of_char c :: nat) < 128) s then s
      else map (\<lambda>c. if (of_char c :: nat) < 127 then c
                    else if is_space c then CHR '' '' else CHR ''?'') s)"

fun no_double_underscore :: "string \<Rightarrow> bool" where
  "no_double_underscore (a # b # cs) =
     ((a \<noteq> CHR ''_'' \<or> b \<noteq> CHR ''_'') \<and> no_double_underscore (b # cs))"
| "no_double_underscore cs = True"

definition int_body_ok :: "string \<Rightarrow> bool" where
  "int_body_ok b = (b \<noteq> [] \<and> is_digit (hd b) \<and> is_digit (last b) \<and>
     list_all (\<lambda>c. is_digit c \<or> c = CHR ''_'') b \<and> no_double_underscore b)"

definition int_of_string :: "runtime \<Rightarrow> string \<Rightarrow> error + int" where
  "int_of_string rt s =
     (let s1 = rev (dropWhile c_space (rev (dropWhile c_space (to_ascii s))));
          neg = (s1 \<noteq> [] \<and> hd s1 = CHR ''-'');
          body = (if s1 \<noteq> [] \<and> (hd s1 = CHR ''-'' \<or> hd s1 = CHR ''+'') then tl s1 else s1);
          digits = filter is_digit body
      in if int_body_ok body \<and>
            \<not> (640 < length digits \<and> 0 < max_str_digits rt \<and> max_str_digits rt < length digits)
         then let v = int (digits_value digits) in Inr (if neg then - v else v)
         else Inl ValueError)"

text \<open>\<^verbatim>\<open>int(x)\<close> of a float truncates towards zero.\<close>

definition trunc :: "real \<Rightarrow> int" where
  "trunc r = (if 0 \<le> r then \<lfloor>r\<rfloor> else \<lceil>r\<rceil>)"

text \<open>\<^verbatim>\<open>round(x)\<close> and \<^verbatim>\<open>round(x, 2)\<close>: to the nearest, ties to even.\<close>

definition py_round :: "real \<Rightarrow> int" where
  "py_round x =
     (let f = \<lfloor>x\<rfloor>; d = x - of_int f
      in if d < 1/2 then f else if 1/2 < d then f + 1 else if even f then f else f + 1)"

definition py_round2 :: "real \<Rightarrow> real" where
  "py_round2 x = of_int (py_round (x * 100)) / 100"

definition py_str :: "runtime \<Rightarrow> raw \<Rightarrow> string" where
  "py_str rt v =
     (case v of
        RStr s \<Rightarrow> s
      | RInt n \<Rightarrow> show_int n
      | RNone \<Rightarrow> ''None''
      | RBool b \<Rightarrow> (if b then ''True'' else ''False'')
      | _ \<Rightarrow> str_of rt v)"

definition py_int :: "runtime \<Rightarrow> raw \<Rightarrow> error + int" where
  "py_int rt v =
     (case v of
        RNone \<Rightarrow> Inl TypeError
      | RBool b \<Rightarrow> Inr (if b then 1 else 0)
      | RInt n \<Rightarrow> Inr n
      | RFloat r \<Rightarrow> Inr (trunc r)
      | RStr s \<Rightarrow> int_of_string rt s
      | RList xs \<Rightarrow> Inl TypeError
      | RDict kvs \<Rightarrow> Inl TypeError)"

text \<open>\<^verbatim>\<open>float(n)\<close> of an integer raises \<^verbatim>\<open>OverflowError\<close> when \<open>n\<close> rounds beyond the largest float.\<close>

definition py_float :: "runtime \<Rightarrow> raw \<Rightarrow> error + real" where
  "py_float rt v =
     (case v of
        RNone \<Rightarrow> Inl TypeError
      | RBool b \<Rightarrow> Inr (if b then 1 else 0)
      | RInt n \<Rightarrow> (if \<bar>n\<bar> < 2 ^ 1024 - 2 ^ 970 then Inr (of_int n) else Inl OverflowError)
      | RFloat r \<Rightarrow> Inr r
      | RStr s \<Rightarrow> (case float_of_string rt s of None \<Rightarrow> Inl ValueError | Some r \<Rightarrow> Inr r)
      | RList xs \<Rightarrow> Inl TypeError
      | RDict kvs \<Rightarrow> Inl TypeError)"

section \<open>Calendar dates\<close>

text \<open>
  A \<^verbatim>\<open>datetime.date\<close> is represented by its proleptic Gregorian ordinal
  (\<^verbatim>\<open>date.toordinal()\<close>, day 1 is 0001-01-01): comparing dates compares ordinals and
  \<^verbatim>\<open>d + timedelta(days=1)\<close> is \<open>d + 1\<close>. Year, month and day are recovered as the library
  does.
\<close>

type_synonym date = int

definition DAYS_IN_MONTH :: "int list" where
  "DAYS_IN_MONTH = [-1, 31, 28, 31, 30, 31, 30, 31, 31, 30, 31, 30, 31]"

definition DAYS_BEFORE_MONTH :: "int list" where
  "DAYS_BEFORE_MONTH = [-1, 0, 31, 59, 90, 120, 151, 181, 212, 243, 273, 304, 334]"

definition is_leap :: "int \<Rightarrow> bool" where
  "is_leap year = (year mod 4 = 0 \<and> (year mod 100 \<noteq> 0 \<or> year mod 400 = 0))"

definition days_before_year :: "int \<Rightarrow> int" where
  "days_before_year year = (let y = year - 1 in y * 365 + y div 4 - y div 100 + y div 400)"

definition days_in_month :: "int \<Rightarrow> int \<Rightarrow> int" where
  "days_in_month year month =
     (if month = 2 \<and> is_leap year then 29 else DAYS_IN_MONTH ! nat month)"

definition days_before_month :: "int \<Rightarrow> int \<Rightarrow> int" where
  "days_before_month year month =
     DAYS_BEFORE_MONTH ! nat month + (if 2 < month \<and> is_leap year then 1 else 0)"

definition ymd2ord :: "int \<Rightarrow> int \<Rightarrow> int \<Rightarrow> date" where
  "ymd2ord year month day = days_before_year year + days_before_month year month + day"

definition ord2ymd :: "date \<Rightarrow> int \<times> int \<times> int" where
  "ord2ymd ordinal =
     (let n = ordinal - 1;
          n400 = n div 146097; n = n mod 146097;
          year = n400 * 400 + 1;
          n100 = n div 36524; n = n mod 36524;
          n4 = n div 1461; n = n mod 1461;
          n1 = n div 365; n = n mod 365;
          year = year + n100 * 100 + n4 * 4 + n1
      in if n1 = 4 \<or> n100 = 4 then (year - 1, 12, 31)
         else
           let leapyear = (n1 = 3 \<and> (n4 \<noteq> 24 \<or> n100 = 3));
               month = (n + 50) div 32;
               preceding = DAYS_BEFORE_MONTH ! nat month + (if 2 < month \<and> leapyear then 1 else 0)
           in if n < preceding
              then let month = month - 1;
                       preceding = preceding -
                         (DAYS_IN_MONTH ! nat month + (if month = 2 \<and> leapyear then 1 else 0))
                   in (year, month, n - preceding + 1)
              else (year, month, n - preceding + 1))"

definition date_month :: "date \<Rightarrow> int" where
  "date_month d = fst (snd (ord2ymd d))"

definition date_day :: "date \<Rightarrow> int" where
  "date_day d = snd (snd (ord2ymd d))"

text \<open>\<^verbatim>\<open>date.weekday()\<close>: Monday is 0, Sunday is 6.\<close>

definition weekday :: "date \<Rightarrow> int" where
  "weekday d = (d + 6) mod 7"

text \<open>The last representable date, 9999-12-31.\<close>

definition date_max :: date where
  "date_max = 3652059"

text \<open>
  \<^verbatim>\<open>date.fromisoformat(s)\<close> for the format \<^verbatim>\<open>YYYY-MM-DD\<close> that the source names: ten
  characters, digits around two hyphens, a month from 1 to 12 and a day of that month;
  \<^verbatim>\<open>ValueError\<close> otherwise. The further ISO 8601 formats that later versions of the library
  also accept are not modelled.
\<close>

definition slice :: "nat \<Rightarrow> nat \<Rightarrow> 'a list \<Rightarrow> 'a list" where
  "slice a b xs = take (b - a) (drop a xs)"

definition fromisoformat :: "string \<Rightarrow> error + date" where
  "fromisoformat s =
     (if length s = 10 \<and> list_all is_digit (slice 0 4 s) \<and> s ! 4 = CHR ''-'' \<and>
         list_all is_digit (slice 5 7 s) \<and> s ! 7 = CHR ''-'' \<and> list_all is_digit (slice 8 10 s)
      then let year = int (digits_value (slice 0 4 s));
               month = int (digits_value (slice 5 7 s));
               day = int (digits_value (slice 8 10 s))
           in if 1 \<le> year \<and> 1 \<le> month \<and> month \<le> 12 \<and> 1 \<le> day \<and> day \<le> days_in_month year month
              then Inr (ymd2ord year month day)
              else Inl ValueError
      else Inl ValueError)"

section \<open>Normalization\<close>

record normalized_task =
  nt_id :: int
  nt_title :: string
  nt_due_date :: "date option"
  nt_estimated_hours :: "real option"
  nt_importance :: "int option"
  nt_dependencies :: "int list"

text \<open>
  \<^verbatim>\<open>_parse_date\<close>: only \<^verbatim>\<open>ValueError\<close> is caught, any other exception of the library call
  would propagate. A raw value is never a \<^verbatim>\<open>date\<close> object, so that branch has no case.
\<close>

definition parse_date :: "raw \<Rightarrow> error + date option" where
  "parse_date v =
     (if in_none_empty_list v then Inr None
      else case v of
             RStr s \<Rightarrow>
               (case fromisoformat s of
                  Inr d \<Rightarrow> Inr (Some d)
                | Inl e \<Rightarrow> (if e = ValueError then Inr None else Inl e))
           | _ \<Rightarrow> Inr None)"

text \<open>\<^verbatim>\<open>_parse_float\<close> and \<^verbatim>\<open>_clamp_int\<close>: every exception is caught.\<close>

definition parse_float :: "runtime \<Rightarrow> raw \<Rightarrow> real option" where
  "parse_float rt v =
     (if in_none_empty v then None
      else case py_float rt v of
             Inr x \<Rightarrow> (if x \<le> 0 then None else Some x)
           | Inl e \<Rightarrow> None)"

definition clamp_int :: "runtime \<Rightarrow> raw \<Rightarrow> int \<Rightarrow> int \<Rightarrow> int option" where
  "clamp_int rt v lo hi =
     (if in_none_empty v then None
      else case py_int rt v of
             Inr x \<Rightarrow> Some (max lo (min hi x))
           | Inl e \<Rightarrow> None)"

definition quote :: string where
  "quote = [CHR 0x27]"

text \<open>The loop over the raw dependency list: each entry is coerced on its own.\<close>

fun deps_loop :: "runtime \<Rightarrow> int \<Rightarrow> raw list \<Rightarrow> int list \<Rightarrow> string list \<Rightarrow> int list \<times> string list" where
  "deps_loop rt tid [] deps warnings = (deps, warnings)"
| "deps_loop rt tid (d # ds) deps warnings =
     (case py_int rt d of
        Inr n \<Rightarrow> deps_loop rt tid ds (deps @ [n]) warnings
      | Inl e \<Rightarrow> deps_loop rt tid ds deps
          (warnings @ [''Task '' @ show_int tid @ '': dependency '' @ quote @ py_str rt d @ quote @
                       '' invalid -> ignored'']))"

text \<open>The body of the loop of \<^verbatim>\<open>normalize_tasks\<close> for the record \<open>t\<close> at position \<open>idx\<close>.\<close>

definition normalize_task ::
  "runtime \<Rightarrow> nat \<Rightarrow> raw_record \<Rightarrow> string list \<Rightarrow> error + (normalized_task \<times> string list)" where
  "normalize_task rt idx t warnings =
     (let tid_raw = (case t ''id'' of None \<Rightarrow> RInt (int idx + 1) | Some v \<Rightarrow> v);
          tid = (case py_int rt tid_raw of Inr n \<Rightarrow> n | Inl e \<Rightarrow> int idx + 1);
          warnings = (case py_int rt tid_raw of
                        Inr n \<Rightarrow> warnings
                      | Inl e \<Rightarrow> warnings @
                          [''Task at index '' @ show_int (int idx) @ '': invalid id '' @ quote @
                           py_str rt tid_raw @ quote @ '' -> auto-assigned '' @ show_int tid]);
          stripped = strip (py_str rt (case t ''title'' of None \<Rightarrow> RStr [] | Some v \<Rightarrow> v));
          title = (if stripped \<noteq> [] then stripped else ''Untitled Task '' @ show_int tid)
      in case parse_date (rec_get t ''due_date'') of
           Inl e \<Rightarrow> Inl e
         | Inr due \<Rightarrow>
             let warnings =
                   (if \<not> in_none_empty_list (rec_get t ''due_date'') \<and> due = None
                    then warnings @ [''Task '' @ show_int tid @ '': invalid due_date -> treated as missing'']
                    else warnings);
                 hours = parse_float rt (rec_get t ''estimated_hours'');
                 warnings =
                   (if \<not> in_none_empty_list (rec_get t ''estimated_hours'') \<and> hours = None
                    then warnings @ [''Task '' @ show_int tid @
                           '': estimated_hours must be a positive number -> treated as missing'']
                    else warnings);
                 importance = clamp_int rt (rec_get t ''importance'') 1 10;
                 warnings =
                   (if \<not> in_none_empty_list (rec_get t ''importance'') \<and> importance = None
                    then warnings @ [''Task '' @ show_int tid @ '': invalid importance -> treated as missing'']
                    else warnings);
                 deps_raw = (if truthy (rec_get t ''dependencies'') then rec_get t ''dependencies''
                             else RList []);
                 warnings =
                   (case deps_raw of
                      RList xs \<Rightarrow> warnings
                    | _ \<Rightarrow> warnings @ [''Task '' @ show_int tid @ '': dependencies is not a list -> ignored'']);
                 deps_raw = (case deps_raw of RList xs \<Rightarrow> xs | _ \<Rightarrow> []);
                 (deps, warnings) = deps_loop rt tid deps_raw [] warnings
             in Inr (\<lparr>nt_id = tid, nt_title = title, nt_due_date = due, nt_estimated_hours = hours,
                      nt_importance = importance, nt_dependencies = deps\<rparr>, warnings))"

fun normalize_loop ::
  "runtime \<Rightarrow> nat \<Rightarrow> raw_record list \<Rightarrow> normalized_task list \<Rightarrow> string list \<Rightarrow>
   error + (normalized_task list \<times> string list)" where
  "normalize_loop rt idx [] tasks warnings = Inr (tasks, warnings)"
| "normalize_loop rt idx (t # ts) tasks warnings =
     (case normalize_task rt idx t warnings of
        Inl e \<Rightarrow> Inl e
      | Inr (task, warnings') \<Rightarrow> normalize_loop rt (Suc idx) ts (tasks @ [task]) warnings')"

definition normalize_tasks ::
  "runtime \<Rightarrow> raw_record list \<Rightarrow> error + (normalized_task list \<times> string list)" where
  "normalize_tasks rt raw_tasks = normalize_loop rt 0 raw_tasks [] []"

section \<open>Dependency graph\<close>

text \<open>
  A Python dictionary whose iteration order matters is an association list in insertion
  order with one entry per key: storing under a key that is present replaces the value in
  place, a new key goes to the end.
\<close>

type_synonym ('k, 'v) dict = "('k \<times> 'v) list"

fun dict_set :: "('k, 'v) dict \<Rightarrow> 'k \<Rightarrow> 'v \<Rightarrow> ('k, 'v) dict" where
  "dict_set [] k v = [(k, v)]"
| "dict_set ((k', v') # kvs) k v = (if k' = k then (k, v) # kvs else (k', v') # dict_set kvs k v)"

definition dict_has :: "('k, 'v) dict \<Rightarrow> 'k \<Rightarrow> bool" where
  "dict_has d k = (map_of d k \<noteq> None)"

text \<open>The loops \<^verbatim>\<open>for dep in deps: reverse[dep].append(tid)\<close> and
  \<^verbatim>\<open>for tid, deps in forward.items()\<close>; subscripting with an absent key raises.\<close>

fun reverse_add :: "(int, int list) dict \<Rightarrow> int \<Rightarrow> int list \<Rightarrow> error + (int, int list) dict" where
  "reverse_add reverse tid [] = Inr reverse"
| "reverse_add reverse tid (dep # deps) =
     (case map_of reverse dep of
        None \<Rightarrow> Inl KeyError
      | Some xs \<Rightarrow> reverse_add (dict_set reverse dep (xs @ [tid])) tid deps)"

fun reverse_fill :: "(int, int list) dict \<Rightarrow> (int \<times> int list) list \<Rightarrow> error + (int, int list) dict" where
  "reverse_fill reverse [] = Inr reverse"
| "reverse_fill reverse ((tid, deps) # items) =
     (case reverse_add reverse tid deps of
        Inl e \<Rightarrow> Inl e
      | Inr reverse' \<Rightarrow> reverse_fill reverse' items)"

definition tasks_by_id_of :: "normalized_task list \<Rightarrow> (int, normalized_task) dict" where
  "tasks_by_id_of tasks = foldl (\<lambda>d t. dict_set d (nt_id t) t) [] tasks"

definition build_graph ::
  "normalized_task list \<Rightarrow>
   error + ((int, normalized_task) dict \<times> (int, int list) dict \<times> (int, int list) dict)" where
  "build_graph tasks =
     (let tasks_by_id = tasks_by_id_of tasks;
          forward = foldl (\<lambda>d t. dict_set d (nt_id t)
                             (filter (\<lambda>dep. dict_has tasks_by_id dep) (nt_dependencies t))) [] tasks;
          reverse = foldl (\<lambda>d t. dict_set d (nt_id t) []) [] tasks
      in case reverse_fill reverse forward of
           Inl e \<Rightarrow> Inl e
         | Inr reverse' \<Rightarrow> Inr (tasks_by_id, forward, reverse'))"

section \<open>Cycle detection\<close>

text \<open>
  The mutable variables of \<^verbatim>\<open>detect_cycles\<close> that the nested \<^verbatim>\<open>dfs\<close> updates: the marking
  (\<^verbatim>\<open>state.get(v, 0)\<close> reads an absent key as 0), the open stack and the cycles found.
\<close>

record dfs_state =
  ds_state :: "int \<Rightarrow> nat option"
  ds_stack :: "int list"
  ds_cycles :: "int list list"

definition state_get :: "dfs_state \<Rightarrow> int \<Rightarrow> nat" where
  "state_get s v = (case ds_state s v of None \<Rightarrow> 0 | Some c \<Rightarrow> c)"

text \<open>\<^verbatim>\<open>stack.index(v)\<close>, used only where \<open>v\<close> is on the stack.\<close>

definition index_of :: "'a list \<Rightarrow> 'a \<Rightarrow> nat" where
  "index_of xs v = length (takeWhile (\<lambda>x. x \<noteq> v) xs)"

text \<open>
  \<^verbatim>\<open>dfs\<close> calls itself once for every task along a chain of dependencies, and nothing in
  the source bounds the depth: the interpreter raises \<^verbatim>\<open>RecursionError\<close> when a call would be
  nested deeper than its recursion limit allows. The first argument of \<open>dfs\<close> is the number
  of nested calls still allowed, \<open>dfs 0\<close> is that failure, and \<^verbatim>\<open>detect_cycles\<close> starts every
  search with the budget \<open>recursion_budget\<close> of the interpreter. \<open>dfs_edges\<close> is the loop over
  the dependencies of \<open>u\<close>.
\<close>

fun dfs :: "nat \<Rightarrow> (int, normalized_task) dict \<Rightarrow> int \<Rightarrow> dfs_state \<Rightarrow> error + dfs_state"
and dfs_edges :: "nat \<Rightarrow> (int, normalized_task) dict \<Rightarrow> int list \<Rightarrow> dfs_state \<Rightarrow> error + dfs_state" where
  "dfs 0 tasks_by_id u s = Inl RecursionError"
| "dfs (Suc n) tasks_by_id u s =
     (case map_of tasks_by_id u of
        None \<Rightarrow> Inl KeyError
      | Some t \<Rightarrow>
          (case dfs_edges n tasks_by_id (nt_dependencies t)
                  (s\<lparr>ds_state := (ds_state s)(u \<mapsto> 1), ds_stack := ds_stack s @ [u]\<rparr>) of
             Inl e \<Rightarrow> Inl e
           | Inr s' \<Rightarrow> Inr (s'\<lparr>ds_stack := butlast (ds_stack s'), ds_state := (ds_state s')(u \<mapsto> 2)\<rparr>)))"
| "dfs_edges n tasks_by_id [] s = Inr s"
| "dfs_edges n tasks_by_id (v # vs) s =
     (if \<not> dict_has tasks_by_id v then dfs_edges n tasks_by_id vs s
      else if state_get s v = 0 then
        (case dfs n tasks_by_id v s of
           Inl e \<Rightarrow> Inl e
         | Inr s' \<Rightarrow> dfs_edges n tasks_by_id vs s')
      else if ds_state s v = Some 1 \<and> v \<in> set (ds_stack s) then
        dfs_edges n tasks_by_id vs
          (s\<lparr>ds_cycles := ds_cycles s @ [drop (index_of (ds_stack s) v) (ds_stack s) @ [v]]\<rparr>)
      else dfs_edges n tasks_by_id vs s)"

fun dfs_roots :: "nat \<Rightarrow> (int, normalized_task) dict \<Rightarrow> int list \<Rightarrow> dfs_state \<Rightarrow> error + dfs_state" where
  "dfs_roots n tasks_by_id [] s = Inr s"
| "dfs_roots n tasks_by_id (tid # tids) s =
     (if state_get s tid = 0 then
        (case dfs n tasks_by_id tid s of
           Inl e \<Rightarrow> Inl e
         | Inr s' \<Rightarrow> dfs_roots n tasks_by_id tids s')
      else dfs_roots n tasks_by_id tids s)"

definition detect_cycles :: "runtime \<Rightarrow> (int, normalized_task) dict \<Rightarrow> error + int list list" where
  "detect_cycles rt tasks_by_id =
     (case dfs_roots (recursion_budget rt) tasks_by_id (map fst tasks_by_id)
             \<lparr>ds_state = Map.empty, ds_stack = [], ds_cycles = []\<rparr> of
        Inl e \<Rightarrow> Inl e
      | Inr s \<Rightarrow> Inr (ds_cycles s))"

text \<open>The tasks still marked 0: each call of \<^verbatim>\<open>dfs\<close> marks one of them, so the recursion is
  never deeper than the number of tasks.\<close>

definition unvisited :: "(int, normalized_task) dict \<Rightarrow> dfs_state \<Rightarrow> int set" where
  "unvisited tasks_by_id s = {k \<in> fst ` set tasks_by_id. state_get s k = 0}"

text \<open>The edges the search follows: from a task to each of its dependencies that is a task
  of the batch.\<close>

definition dep_edges :: "(int, normalized_task) dict \<Rightarrow> (int \<times> int) set" where
  "dep_edges tasks_by_id =
     {(a, b). \<exists>t. map_of tasks_by_id a = Some t \<and> b \<in> set (nt_dependencies t) \<and> dict_has tasks_by_id b}"

text \<open>The open stack is a path along these edges, and every id of a recorded cycle reaches
  itself.\<close>

definition dfs_inv :: "(int, normalized_task) dict \<Rightarrow> dfs_state \<Rightarrow> bool" where
  "dfs_inv tasks_by_id s =
     (successively (\<lambda>a b. (a, b) \<in> dep_edges tasks_by_id) (ds_stack s) \<and>
      (\<forall>c \<in> set (ds_cycles s). \<forall>x \<in> set c. (x, x) \<in> (dep_edges tasks_by_id)\<^sup>+))"

definition cycle_nodes :: "int list list \<Rightarrow> int set" where
  "cycle_nodes cycles = fold (\<lambda>c s. fold insert c s) cycles {}"

section \<open>Downstream count\<close>

text \<open>\<^verbatim>\<open>reverse.get(u, [])\<close>.\<close>

definition get_list :: "(int, int list) dict \<Rightarrow> int \<Rightarrow> int list" where
  "get_list reverse u = (case map_of reverse u of None \<Rightarrow> [] | Some xs \<Rightarrow> xs)"

definition all_values :: "(int, int list) dict \<Rightarrow> int set" where
  "all_values reverse = \<Union> (set ` snd ` set reverse)"

text \<open>The \<^verbatim>\<open>while stack\<close> loop; \<^verbatim>\<open>stack.pop()\<close> takes the last element.\<close>

function downstream_loop :: "(int, int list) dict \<Rightarrow> int set \<Rightarrow> int list \<Rightarrow> int set" where
  "downstream_loop reverse seen stack =
     (if stack = [] then seen
      else if last stack \<in> seen then downstream_loop reverse seen (butlast stack)
      else downstream_loop reverse (insert (last stack) seen)
             (butlast stack @ get_list reverse (last stack)))"
  by pat_completeness auto

termination downstream_loop
proof (relation "measures [\<lambda>(reverse, seen, stack). card ((all_values reverse \<union> set stack) - seen),
                           \<lambda>(reverse, seen, stack). length stack]", goal_cases)
  case 1
  show ?case by simp
next
  case (2 reverse seen stack)
  have "set (butlast stack) \<subseteq> set stack"
    by (meson in_set_butlastD subsetI)
  hence "(all_values reverse \<union> set (butlast stack)) - seen \<subseteq> (all_values reverse \<union> set stack) - seen"
    by auto
  moreover have "finite ((all_values reverse \<union> set stack) - seen)"
    by (simp add: all_values_def)
  ultimately have "card ((all_values reverse \<union> set (butlast stack)) - seen)
      \<le> card ((all_values reverse \<union> set stack) - seen)"
    by (rule card_mono[rotated])
  with 2 show ?case by auto
next
  case (3 reverse seen stack)
  let ?u = "last stack"
  have vals: "set (get_list reverse ?u) \<subseteq> all_values reverse"
  proof (cases "map_of reverse ?u")
    case None
    then show ?thesis by (simp add: get_list_def)
  next
    case (Some xs)
    then have "(?u, xs) \<in> set reverse" by (rule map_of_SomeD)
    then have "set xs \<subseteq> all_values reverse" unfolding all_values_def by force
    with Some show ?thesis by (simp add: get_list_def)
  qed
  have fin: "finite ((all_values reverse \<union> set stack) - seen)"
    by (simp add: all_values_def)
  have "set (butlast stack) \<subseteq> set stack"
    by (meson in_set_butlastD subsetI)
  with vals
  have sub: "(all_values reverse \<union> set (butlast stack @ get_list reverse ?u)) - insert ?u seen
      \<subseteq> (all_values reverse \<union> set stack) - seen"
    by auto
  have "?u \<in> (all_values reverse \<union> set stack) - seen"
    using 3 by simp
  moreover have "?u \<notin> (all_values reverse \<union> set (butlast stack @ get_list reverse ?u)) - insert ?u seen"
    by simp
  ultimately have "(all_values reverse \<union> set (butlast stack @ get_list reverse ?u)) - insert ?u seen
      \<subset> (all_values reverse \<union> set stack) - seen"
    using sub by blast
  from psubset_card_mono[OF fin this] show ?case by simp
qed

declare downstream_loop.simps [simp del]

text \<open>\<^verbatim>\<open>_downstream_block_count\<close>: the set \<open>seen\<close> when the loop ends, and its size.\<close>

definition downstream_seen :: "int \<Rightarrow> (int, int list) dict \<Rightarrow> int set" where
  "downstream_seen task_id reverse = downstream_loop reverse {} (get_list reverse task_id)"

definition downstream_block_count :: "int \<Rightarrow> (int, int list) dict \<Rightarrow> nat" where
  "downstream_block_count task_id reverse = card (downstream_seen task_id reverse)"

section \<open>Scoring factors\<close>

definition INDIA_HOLIDAYS_FIXED :: "(int \<times> int) set" where
  "INDIA_HOLIDAYS_FIXED = {(1, 1), (1, 26), (5, 1), (8, 15), (10, 2), (12, 25)}"

definition is_non_working_day :: "date \<Rightarrow> bool" where
  "is_non_working_day candidate =
     (5 \<le> weekday candidate \<or> (date_month candidate, date_day candidate) \<in> INDIA_HOLIDAYS_FIXED)"

text \<open>The loop \<^verbatim>\<open>while cursor < due\<close> of \<^verbatim>\<open>_working_days_until\<close>.\<close>

function working_days_loop :: "date \<Rightarrow> date \<Rightarrow> int \<Rightarrow> int" where
  "working_days_loop cursor due days =
     (if cursor < due
      then working_days_loop (cursor + 1) due (if \<not> is_non_working_day cursor then days + 1 else days)
      else days)"
  by pat_completeness auto
termination
  by (relation "measure (\<lambda>(cursor, due, days). nat (due - cursor))") auto

declare working_days_loop.simps [simp del]

text \<open>The reference date \<open>today\<close> is always given: reading the clock is outside the model.\<close>

definition working_days_until :: "date \<Rightarrow> date \<Rightarrow> int" where
  "working_days_until due today = (if due < today then - 1 else working_days_loop today due 0)"

definition urgency :: "date option \<Rightarrow> date \<Rightarrow> real" where
  "urgency due today =
     (case due of
        None \<Rightarrow> 25 / 100
      | Some d \<Rightarrow>
          let working_days = working_days_until d today
          in if working_days < 0 then 1
             else 1 / (1 + (of_int working_days / 5)))"

definition importance :: "int option \<Rightarrow> real" where
  "importance imp = (of_int (case imp of None \<Rightarrow> 5 | Some v \<Rightarrow> v) - 1) / 9"

text \<open>\<^verbatim>\<open>math.log1p\<close> raises \<^verbatim>\<open>ValueError\<close> outside its domain; a float division by zero raises.\<close>

definition log1p :: "real \<Rightarrow> error + real" where
  "log1p x = (if x \<le> - 1 then Inl ValueError else Inr (ln (1 + x)))"

definition quickwin :: "real option \<Rightarrow> real \<Rightarrow> error + real" where
  "quickwin hours max_hours =
     (let hours = (case hours of None \<Rightarrow> 4 | Some h \<Rightarrow> h)
      in if max_hours \<le> 0 then Inr (6 / 10)
         else case log1p hours of
                Inl e \<Rightarrow> Inl e
              | Inr a \<Rightarrow>
                  (case log1p max_hours of
                     Inl e \<Rightarrow> Inl e
                   | Inr b \<Rightarrow>
                       if b = 0 then Inl ZeroDivisionError
                       else let x = a / b in Inr (max 0 (min 1 (1 - x)))))"

definition blocker_score :: "nat \<Rightarrow> real" where
  "blocker_score block_count = max 0 (min 1 (real block_count / 8))"

section \<open>Main scoring\<close>

record strategy_weights =
  w_urgency :: real
  w_importance :: real
  w_quickwin :: real
  w_blocker :: real

definition DEFAULT_STRATEGY :: string where
  "DEFAULT_STRATEGY = ''smart_balance''"

definition STRATEGY_WEIGHTS :: "(string \<times> strategy_weights) list" where
  "STRATEGY_WEIGHTS =
     [(''fastest_wins'', \<lparr>w_urgency = 15/100, w_importance = 15/100, w_quickwin = 60/100, w_blocker = 10/100\<rparr>),
      (''high_impact'', \<lparr>w_urgency = 15/100, w_importance = 65/100, w_quickwin = 5/100, w_blocker = 15/100\<rparr>),
      (''deadline_driven'', \<lparr>w_urgency = 75/100, w_importance = 20/100, w_quickwin = 3/100, w_blocker = 2/100\<rparr>),
      (''smart_balance'', \<lparr>w_urgency = 40/100, w_importance = 35/100, w_quickwin = 15/100, w_blocker = 10/100\<rparr>)]"

text \<open>\<^verbatim>\<open>(strategy or DEFAULT_STRATEGY).strip().lower()\<close> and the lookup with its default.\<close>

definition strategy_key_of :: "string \<Rightarrow> string" where
  "strategy_key_of strategy = lower (strip (if strategy \<noteq> [] then strategy else DEFAULT_STRATEGY))"

definition weights_of :: "string \<Rightarrow> error + strategy_weights" where
  "weights_of strategy_key =
     (case map_of STRATEGY_WEIGHTS DEFAULT_STRATEGY of
        None \<Rightarrow> Inl KeyError
      | Some dflt \<Rightarrow>
          (case map_of STRATEGY_WEIGHTS strategy_key of None \<Rightarrow> Inr dflt | Some w \<Rightarrow> Inr w))"

text \<open>\<^verbatim>\<open>max([t.estimated_hours or 0 for t in tasks] + [1.0])\<close>.\<close>

definition py_max :: "real list \<Rightarrow> real" where
  "py_max xs = foldl max (hd xs) (tl xs)"

definition max_hours_of :: "normalized_task list \<Rightarrow> real" where
  "max_hours_of tasks =
     py_max (map (\<lambda>t. case nt_estimated_hours t of None \<Rightarrow> 0 | Some h \<Rightarrow> if h \<noteq> 0 then h else 0) tasks @ [1])"

record scored_task =
  sc_id :: int
  sc_title :: string
  sc_due_date :: "date option"
  sc_estimated_hours :: "real option"
  sc_importance :: int
  sc_dependencies :: "int list"
  sc_dependents :: nat
  sc_score :: real
  sc_explanation :: string

text \<open>
  The body of the loop \<^verbatim>\<open>for t in tasks\<close>. The field \<open>sc_due_date\<close> stands for the text
  \<^verbatim>\<open>t.due_date.isoformat()\<close>: ISO dates have a fixed width, so the order of the texts is
  the order of the dates.
\<close>

definition score_task ::
  "strategy_weights \<Rightarrow> string \<Rightarrow> int set \<Rightarrow> (int, int list) dict \<Rightarrow> real \<Rightarrow> date \<Rightarrow>
   normalized_task \<Rightarrow> error + scored_task" where
  "score_task weights strategy_key cycle_set reverse max_hours today t =
     (let u = urgency (nt_due_date t) today;
          im = importance (nt_importance t)
      in case quickwin (nt_estimated_hours t) max_hours of
           Inl e \<Rightarrow> Inl e
         | Inr qw \<Rightarrow>
             let downstream = downstream_block_count (nt_id t) reverse;
                 bl = blocker_score downstream;
                 base = w_urgency weights * u + w_importance weights * im +
                        w_quickwin weights * qw + w_blocker weights * bl;
                 cycle_penalty = (if nt_id t \<in> cycle_set then 15 / 100 else 0);
                 final = base * (1 - cycle_penalty)
             in Inr \<lparr>sc_id = nt_id t,
                     sc_title = nt_title t,
                     sc_due_date = nt_due_date t,
                     sc_estimated_hours = nt_estimated_hours t,
                     sc_importance = (case nt_importance t of None \<Rightarrow> 5 | Some v \<Rightarrow> v),
                     sc_dependencies = nt_dependencies t,
                     sc_dependents = downstream,
                     sc_score = py_round2 (final * 100),
                     sc_explanation =
                       ''U='' @ show_int (py_round (u * 100)) @ ''%, I='' @ show_int (py_round (im * 100)) @
                       ''%, QW='' @ show_int (py_round (qw * 100)) @ ''%, Block='' @ show_int (int downstream) @
                       '' ('' @ show_int (py_round (bl * 100)) @ ''%), cycle_penalty='' @
                       show_int (trunc (cycle_penalty * 100)) @ ''% (strategy='' @ strategy_key @ '')''\<rparr>)"

fun score_loop ::
  "strategy_weights \<Rightarrow> string \<Rightarrow> int set \<Rightarrow> (int, int list) dict \<Rightarrow> real \<Rightarrow> date \<Rightarrow>
   normalized_task list \<Rightarrow> scored_task list \<Rightarrow> error + scored_task list" where
  "score_loop weights strategy_key cycle_set reverse max_hours today [] scored = Inr scored"
| "score_loop weights strategy_key cycle_set reverse max_hours today (t # ts) scored =
     (case score_task weights strategy_key cycle_set reverse max_hours today t of
        Inl e \<Rightarrow> Inl e
      | Inr x \<Rightarrow> score_loop weights strategy_key cycle_set reverse max_hours today ts (scored @ [x]))"

text \<open>
  \<^verbatim>\<open>_sort_key\<close>: a tuple, compared lexicographically. An absent due date counts as
  \<^verbatim>\<open>"9999-12-31"\<close>, the text of \<open>date_max\<close>.
\<close>

definition score_sort_key :: "scored_task \<Rightarrow> real \<times> date \<times> int" where
  "score_sort_key x =
     (- sc_score x,
      (case sc_due_date x of None \<Rightarrow> date_max | Some d \<Rightarrow> d),
      - (if sc_importance x \<noteq> 0 then sc_importance x else 5))"

record score_result =
  res_tasks :: "scored_task list"
  res_cycles :: "int list list"
  res_strategy_used :: string

text \<open>\<^verbatim>\<open>list.sort(key=...)\<close> is a stable sort, as \<open>sort_key\<close> is.\<close>

definition score_tasks ::
  "runtime \<Rightarrow> normalized_task list \<Rightarrow> string \<Rightarrow> date \<Rightarrow> error + score_result" where
  "score_tasks rt tasks strategy today =
     (let strategy_key = strategy_key_of strategy
      in case weights_of strategy_key of
           Inl e \<Rightarrow> Inl e
         | Inr weights \<Rightarrow>
             (case build_graph tasks of
                Inl e \<Rightarrow> Inl e
              | Inr (tasks_by_id, forward, reverse) \<Rightarrow>
                  (case detect_cycles rt tasks_by_id of
                     Inl e \<Rightarrow> Inl e
                   | Inr cycles \<Rightarrow>
                       let cycle_set = cycle_nodes cycles;
                           max_hours = max_hours_of tasks
                       in case score_loop weights strategy_key cycle_set reverse max_hours today tasks [] of
                            Inl e \<Rightarrow> Inl e
                          | Inr scored \<Rightarrow>
                              Inr \<lparr>res_tasks = sort_key score_sort_key scored,
                                   res_cycles = cycles,
                                   res_strategy_used = strategy_key\<rparr>)))"

text \<open>
  The values of the variables \<^verbatim>\<open>base\<close> and \<^verbatim>\<open>final\<close> of the loop body for the task \<open>t\<close>.
\<close>

definition task_base ::
  "strategy_weights \<Rightarrow> (int, int list) dict \<Rightarrow> real \<Rightarrow> date \<Rightarrow> normalized_task \<Rightarrow> error + real" where
  "task_base weights reverse max_hours today t =
     (case quickwin (nt_estimated_hours t) max_hours of
        Inl e \<Rightarrow> Inl e
      | Inr qw \<Rightarrow>
          Inr (w_urgency weights * urgency (nt_due_date t) today +
               w_importance weights * importance (nt_importance t) +
               w_quickwin weights * qw +
               w_blocker weights * blocker_score (downstream_block_count (nt_id t) reverse)))"

definition task_final ::
  "strategy_weights \<Rightarrow> int set \<Rightarrow> (int, int list) dict \<Rightarrow> real \<Rightarrow> date \<Rightarrow> normalized_task \<Rightarrow>
   error + real" where
  "task_final weights cycle_set reverse max_hours today t =
     (case task_base weights reverse max_hours today t of
        Inl e \<Rightarrow> Inl e
      | Inr base \<Rightarrow> Inr (base * (1 - (if nt_id t \<in> cycle_set then 15 / 100 else 0))))"

text \<open>The value of the variable \<^verbatim>\<open>tid\<close> of \<^verbatim>\<open>normalize_tasks\<close> for the record \<open>t\<close> at position
  \<open>idx\<close>.\<close>

definition assigned_id :: "runtime \<Rightarrow> nat \<Rightarrow> raw_record \<Rightarrow> int" where
  "assigned_id rt idx t =
     (case py_int rt (case t ''id'' of None \<Rightarrow> RInt (int idx + 1) | Some v \<Rightarrow> v) of
        Inr n \<Rightarrow> n
      | Inl e \<Rightarrow> int idx + 1)"

text \<open>An instance of the parameters: the default limits of the interpreter, and library
  functions for inputs that need neither.\<close>

definition plain_runtime :: runtime where
  "plain_runtime =
     \<lparr>str_of = (\<lambda>v. []), float_of_string = (\<lambda>s. None), max_str_digits = 4300, recursion_budget = 1000\<rparr>"

text \<open>
  A batch of \<open>n\<close> records with the ids 1 to \<open>n\<close>, each depending on the next id (in Python,
  \<^verbatim>\<open>[{"id": i + 1, "dependencies": [i + 2]} for i in range(n)]\<close>), and the tasks they
  normalize to: a chain of dependencies as long as the batch.
\<close>

definition chain_record :: "nat \<Rightarrow> raw_record" where
  "chain_record i = [''id'' \<mapsto> RInt (int i + 1), ''dependencies'' \<mapsto> RList [RInt (int i + 2)]]"

definition chain_task :: "nat \<Rightarrow> normalized_task" where
  "chain_task i =
     \<lparr>nt_id = int i + 1, nt_title = ''Untitled Task '' @ show_int (int i + 1), nt_due_date = None,
      nt_estimated_hours = None, nt_importance = None, nt_dependencies = [int i + 2]\<rparr>"

definition chain_records :: "nat \<Rightarrow> raw_record list" where
  "chain_records n = map chain_record [0..<n]"

definition dependency_chain :: "nat \<Rightarrow> normalized_task list" where
  "dependency_chain n = map chain_task [0..<n]"

text \<open>The invariant of the data model on the estimated hours of a task: absent or positive.\<close>

definition hours_ok :: "normalized_task \<Rightarrow> bool" where
  "hours_ok t = (case nt_estimated_hours t of None \<Rightarrow> True | Some h \<Rightarrow> 0 < h)"

text \<open>
  The ranking in the words of the specification, to compare with \<open>score_sort_key\<close>: \<open>x\<close> may
  stand before \<open>y\<close> when its score is higher, or the scores are equal and its due date is
  earlier, a record without due date coming after every dated one, or scores and due dates
  are equal and its importance is not lower.
\<close>

definition claimed_order :: "scored_task \<Rightarrow> scored_task \<Rightarrow> bool" where
  "claimed_order x y =
     (sc_score y < sc_score x \<or>
      (sc_score x = sc_score y \<and>
         ((case (sc_due_date x, sc_due_date y) of
             (Some a, Some b) \<Rightarrow> a < b
           | (Some a, None) \<Rightarrow> True
           | (None, _) \<Rightarrow> False) \<or>
          (sc_due_date x = sc_due_date y \<and> sc_importance y \<le> sc_importance x))))"

text \<open>The same ranking with an absent due date read as the date 9999-12-31.\<close>

definition due_or_max :: "scored_task \<Rightarrow> date" where
  "due_or_max x = (case sc_due_date x of None \<Rightarrow> date_max | Some d \<Rightarrow> d)"

definition amended_order :: "scored_task \<Rightarrow> scored_task \<Rightarrow> bool" where
  "amended_order x y =
     (sc_score y < sc_score x \<or>
      (sc_score x = sc_score y \<and>
         (due_or_max x < due_or_max y \<or>
          (due_or_max x = due_or_max y \<and> sc_importance y \<le> sc_importance x))))"

section \<open>Urgency\<close>

lemma working_days_loop_count:
  "working_days_loop cursor due days =
     days + int (card {x. cursor \<le> x \<and> x < due \<and> \<not> is_non_working_day x})"
proof (induction cursor due days rule: working_days_loop.induct)
  case (1 cursor due days)
  show ?case
  proof (cases "cursor < due")
    case False
    then have e: "{x. cursor \<le> x \<and> x < due \<and> \<not> is_non_working_day x} = {}"
      by auto
    show ?thesis
      using False by (subst working_days_loop.simps) (simp add: e)
  next
    case True
    let ?R = "{x. cursor + 1 \<le> x \<and> x < due \<and> \<not> is_non_working_day x}"
    have fin: "finite ?R"
      by (rule finite_subset[of _ "{cursor + 1 ..< due}"]) auto
    have notin: "cursor \<notin> ?R"
      by simp
    have split: "{x. cursor \<le> x \<and> x < due \<and> \<not> is_non_working_day x}
        = (if is_non_working_day cursor then ?R else insert cursor ?R)"
      using True by (auto simp: order_le_less)
    have "working_days_loop cursor due days =
        working_days_loop (cursor + 1) due (if \<not> is_non_working_day cursor then days + 1 else days)"
      using True by (subst working_days_loop.simps) simp
    also have "\<dots> = (if \<not> is_non_working_day cursor then days + 1 else days) + int (card ?R)"
      using True by (rule "1.IH")
    also have "\<dots> = days + int (card {x. cursor \<le> x \<and> x < due \<and> \<not> is_non_working_day x})"
      using fin notin by (simp add: split)
    finally show ?thesis .
  qed
qed

lemma working_day_set:
  "{d. today \<le> d \<and> d < due \<and> weekday d < 5 \<and>
       (date_month d, date_day d) \<notin> {(1, 1), (1, 26), (5, 1), (8, 15), (10, 2), (12, 25)}}
   = {x. today \<le> x \<and> x < due \<and> \<not> is_non_working_day x}"
proof -
  have "\<And>x. (\<not> is_non_working_day x) =
      (weekday x < 5 \<and>
       (date_month x, date_day x) \<notin> {(1, 1), (1, 26), (5, 1), (8, 15), (10, 2), (12, 25)})"
    unfolding is_non_working_day_def INDIA_HOLIDAYS_FIXED_def by (simp only: de_Morgan_disj not_le)
  then show ?thesis by (simp only:)
qed

lemma working_day_set_card:
  "int (card {d. today \<le> d \<and> d < due \<and> weekday d < 5 \<and>
       (date_month d, date_day d) \<notin> {(1, 1), (1, 26), (5, 1), (8, 15), (10, 2), (12, 25)}})
   = working_days_loop today due 0"
  unfolding working_day_set by (simp add: working_days_loop_count)

text \<open>
  Claim C1. The urgency factor is 0.25 when the due date is absent, 1.0 when the due date
  is strictly before the reference date, and otherwise \<open>1 / (1 + w / 5)\<close>, where \<open>w\<close> counts the
  calendar days from the reference date up to, but not including, the due date that are
  neither a Saturday or Sunday nor one of the fixed holidays; no working day gives 1.0 and
  five working days give 0.5.
\<close>

theorem urgency_by_working_days:
  "urgency None today = 25 / 100 \<and>
   (due < today \<longrightarrow> urgency (Some due) today = 1) \<and>
   (today \<le> due \<longrightarrow>
      (let w = card {d. today \<le> d \<and> d < due \<and> weekday d < 5 \<and>
                        (date_month d, date_day d) \<notin> {(1, 1), (1, 26), (5, 1), (8, 15), (10, 2), (12, 25)}}
       in urgency (Some due) today = 1 / (1 + real w / 5) \<and>
          (w = 0 \<longrightarrow> urgency (Some due) today = 1) \<and>
          (w = 5 \<longrightarrow> urgency (Some due) today = 5 / 10)))"
proof -
  have none: "urgency None today = 25 / 100"
    by (simp add: urgency_def)
  have overdue: "due < today \<longrightarrow> urgency (Some due) today = 1"
    by (simp add: urgency_def working_days_until_def)
  have later: "today \<le> due \<Longrightarrow> urgency (Some due) today =
      1 / (1 + real (card {x. today \<le> x \<and> x < due \<and> \<not> is_non_working_day x}) / 5)"
    by (simp add: urgency_def working_days_until_def working_days_loop_count Let_def)
  show ?thesis
    using none overdue later unfolding working_day_set Let_def by auto
qed

text \<open>
  The theorem at concrete dates: a task due 2025-10-01 seen on 2025-10-03 is overdue; from
  Wednesday 2025-10-01 to Friday 2025-10-03 there is one working day (2 October is a
  holiday); a task due on the reference date has none; from Monday 2025-11-03 to Monday
  2025-11-10 there are five.
\<close>

theorem urgency_by_working_days_witness:
  "urgency (Some 739525) 739527 = 1 \<and>
   urgency (Some 739527) 739525 = 5 / 6 \<and>
   urgency (Some 739558) 739558 = 1 \<and>
   urgency (Some 739565) 739558 = 5 / 10"
proof -
  have w1: "int (card {d. 739525 \<le> d \<and> d < 739527 \<and> weekday d < 5 \<and>
        (date_month d, date_day d) \<notin> {(1, 1), (1, 26), (5, 1), (8, 15), (10, 2), (12, 25)}}) = 1"
    unfolding working_day_set_card by code_simp
  have w0: "int (card {d. 739558 \<le> d \<and> d < 739558 \<and> weekday d < 5 \<and>
        (date_month d, date_day d) \<notin> {(1, 1), (1, 26), (5, 1), (8, 15), (10, 2), (12, 25)}}) = 0"
    unfolding working_day_set_card by code_simp
  have w5: "int (card {d. 739558 \<le> d \<and> d < 739565 \<and> weekday d < 5 \<and>
        (date_month d, date_day d) \<notin> {(1, 1), (1, 26), (5, 1), (8, 15), (10, 2), (12, 25)}}) = 5"
    unfolding working_day_set_card by code_simp
  have a: "urgency (Some 739525) 739527 = 1"
    using urgency_by_working_days[where today = 739527 and due = 739525] by simp
  have b: "urgency (Some 739527) 739525 = 5 / 6"
    using urgency_by_working_days[where today = 739525 and due = 739527] w1
    by (simp add: Let_def)
  have c: "urgency (Some 739558) 739558 = 1"
    using urgency_by_working_days[where today = 739558 and due = 739558] w0
    by (simp add: Let_def)
  have d: "urgency (Some 739565) 739558 = 5 / 10"
    using urgency_by_working_days[where today = 739558 and due = 739565] w5
    by (simp add: Let_def)
  show ?thesis
    using a b c d by simp
qed

section \<open>Cycle detection on the two-task scenarios\<close>

lemmas dfs_eval = tasks_by_id_of_def detect_cycles_def dict_has_def state_get_def index_of_def

lemma budget_two: "2 \<le> n \<Longrightarrow> \<exists>k. n = Suc (Suc k)"
  by (rule exI[of _ "n - 2"]) simp

lemma plain_budget: "\<exists>k. recursion_budget plain_runtime = Suc (Suc k)"
  by (rule budget_two) (simp add: plain_runtime_def)

text \<open>
  Claim C7. For two tasks with ids 1 and 2 that depend on each other, \<^verbatim>\<open>detect_cycles\<close>
  reports the cycle \<open>[1, 2, 1]\<close>, which contains both ids; for two tasks with empty
  dependency lists it reports no cycle. The other fields of the tasks are arbitrary, and
  so is the interpreter, as long as it lets \<^verbatim>\<open>dfs\<close> nest two calls.
\<close>

theorem detect_cycles_two_tasks:
  assumes "2 \<le> recursion_budget rt"
  shows "detect_cycles rt (tasks_by_id_of
      [\<lparr>nt_id = 1, nt_title = a1, nt_due_date = b1, nt_estimated_hours = c1, nt_importance = d1,
        nt_dependencies = [2]\<rparr>,
       \<lparr>nt_id = 2, nt_title = a2, nt_due_date = b2, nt_estimated_hours = c2, nt_importance = d2,
        nt_dependencies = [1]\<rparr>]) = Inr [[1, 2, 1]] \<and>
   detect_cycles rt (tasks_by_id_of
      [\<lparr>nt_id = 1, nt_title = a1, nt_due_date = b1, nt_estimated_hours = c1, nt_importance = d1,
        nt_dependencies = []\<rparr>,
       \<lparr>nt_id = 2, nt_title = a2, nt_due_date = b2, nt_estimated_hours = c2, nt_importance = d2,
        nt_dependencies = []\<rparr>]) = Inr []"
proof -
  from assms obtain k where "recursion_budget rt = Suc (Suc k)"
    using budget_two by blast
  then show ?thesis
    by (simp add: dfs_eval)
qed

theorem detect_cycles_two_tasks_witness:
  "detect_cycles plain_runtime (tasks_by_id_of
      [\<lparr>nt_id = 1, nt_title = ''a'', nt_due_date = None, nt_estimated_hours = None,
        nt_importance = None, nt_dependencies = [2]\<rparr>,
       \<lparr>nt_id = 2, nt_title = ''b'', nt_due_date = None, nt_estimated_hours = None,
        nt_importance = None, nt_dependencies = [1]\<rparr>]) = Inr [[1, 2, 1]] \<and>
   detect_cycles plain_runtime (tasks_by_id_of
      [\<lparr>nt_id = 1, nt_title = ''a'', nt_due_date = None, nt_estimated_hours = None,
        nt_importance = None, nt_dependencies = []\<rparr>,
       \<lparr>nt_id = 2, nt_title = ''b'', nt_due_date = None, nt_estimated_hours = None,
        nt_importance = None, nt_dependencies = []\<rparr>]) = Inr []"
  using detect_cycles_two_tasks[of plain_runtime "''a''" None None None "''b''" None None None]
  by (simp add: plain_runtime_def)

section \<open>Quick-win factor\<close>

lemma py_max_Max: "xs \<noteq> [] \<Longrightarrow> py_max xs = Max (set xs)"
proof -
  assume "xs \<noteq> []"
  then obtain y ys where xs: "xs = y # ys"
    by (cases xs) auto
  have "foldl max y ys = fold max ys y"
    by (simp add: foldl_conv_fold max.commute)
  then show ?thesis
    using Max.set_eq_fold[of y ys] by (simp add: py_max_def xs)
qed

lemma max_hours_of_Max:
  "max_hours_of tasks =
     Max (insert 1 ((\<lambda>t. case nt_estimated_hours t of None \<Rightarrow> 0 | Some h \<Rightarrow> h) ` set tasks))"
proof -
  have f: "(\<lambda>t. case nt_estimated_hours t of None \<Rightarrow> 0 | Some h \<Rightarrow> if h \<noteq> 0 then h else 0)
         = (\<lambda>t. case nt_estimated_hours t of None \<Rightarrow> (0::real) | Some h \<Rightarrow> h)"
    by (auto split: option.splits)
  show ?thesis
    unfolding max_hours_of_def f by (subst py_max_Max) (simp_all add: insert_commute)
qed

lemma max_hours_of_ge_1: "1 \<le> max_hours_of tasks"
  unfolding max_hours_of_Max by (rule Max_ge) simp_all

lemma quickwin_value:
  assumes "0 < max_hours" and "- 1 < (case hours of None \<Rightarrow> 4 | Some h \<Rightarrow> h)"
  shows "quickwin hours max_hours =
     Inr (max 0 (min 1 (1 - ln (1 + (case hours of None \<Rightarrow> 4 | Some h \<Rightarrow> h)) / ln (1 + max_hours))))"
proof -
  have "ln (1 + max_hours) > 0"
    using assms(1) by simp
  then show ?thesis
    using assms by (simp add: quickwin_def log1p_def Let_def)
qed

text \<open>
  Claim C5. For a task of a batch whose estimated hours are absent or positive, the
  quick-win factor computed by \<^verbatim>\<open>score_tasks\<close> is
  \<open>max 0 (min 1 (1 - ln (1 + h) / ln (1 + max_hours)))\<close>, where \<open>h\<close> is the task's estimated hours
  or 4 when absent and \<open>max_hours\<close> is the largest estimated hours of the batch, absent hours
  counting as 0, and at least 1. The factor lies between 0 and 1, and \<open>max_hours\<close> is
  positive, so the branch that returns 0.6 is not taken.
\<close>

theorem quickwin_in_batch:
  assumes "case nt_estimated_hours t of None \<Rightarrow> True | Some h \<Rightarrow> 0 < h"
  shows "(let h = (case nt_estimated_hours t of None \<Rightarrow> 4 | Some h \<Rightarrow> h);
              max_hours = Max (insert 1 ((\<lambda>t. case nt_estimated_hours t of None \<Rightarrow> 0 | Some h \<Rightarrow> h) ` set tasks));
              factor = max 0 (min 1 (1 - ln (1 + h) / ln (1 + max_hours)))
          in max_hours_of tasks = max_hours \<and>
             \<not> max_hours \<le> 0 \<and>
             quickwin (nt_estimated_hours t) (max_hours_of tasks) = Inr factor \<and>
             0 \<le> factor \<and> factor \<le> 1)"
proof -
  have pos: "0 < max_hours_of tasks"
    using max_hours_of_ge_1[of tasks] by simp
  have h: "- 1 < (case nt_estimated_hours t of None \<Rightarrow> 4 | Some h \<Rightarrow> h)"
    using assms by (cases "nt_estimated_hours t") auto
  show ?thesis
    using pos quickwin_value[OF pos h] by (simp add: Let_def max_hours_of_Max[symmetric])
qed

text \<open>The theorem for a two-hour task in a batch whose largest task takes eight hours.\<close>

theorem quickwin_in_batch_witness:
  "quickwin (Some 2)
     (max_hours_of
        [\<lparr>nt_id = 1, nt_title = ''a'', nt_due_date = None, nt_estimated_hours = Some 2,
          nt_importance = None, nt_dependencies = []\<rparr>,
         \<lparr>nt_id = 2, nt_title = ''b'', nt_due_date = None, nt_estimated_hours = Some 8,
          nt_importance = None, nt_dependencies = []\<rparr>])
   = Inr (max 0 (min 1 (1 - ln 3 / ln 9)))"
  using quickwin_in_batch[of
      "\<lparr>nt_id = 1, nt_title = ''a'', nt_due_date = None, nt_estimated_hours = Some 2,
        nt_importance = None, nt_dependencies = []\<rparr>"
      "[\<lparr>nt_id = 1, nt_title = ''a'', nt_due_date = None, nt_estimated_hours = Some 2,
          nt_importance = None, nt_dependencies = []\<rparr>,
         \<lparr>nt_id = 2, nt_title = ''b'', nt_due_date = None, nt_estimated_hours = Some 8,
          nt_importance = None, nt_dependencies = []\<rparr>]"]
  by (auto simp add: Let_def)

section \<open>The graph is always built\<close>

lemma map_of_dict_set: "map_of (dict_set d k v) = (map_of d)(k \<mapsto> v)"
  by (induction d) (auto simp: fun_eq_iff)

lemma keys_dict_set: "fst ` set (dict_set d k v) = insert k (fst ` set d)"
  by (induction d k v rule: dict_set.induct) (auto split: if_splits)

lemma dict_has_keys: "dict_has d k = (k \<in> fst ` set d)"
  by (simp add: dict_has_def map_of_eq_None_iff)

lemma keys_foldl_dict_set:
  "fst ` set (foldl (\<lambda>d t. dict_set d (f t) (g t)) d0 ts) = fst ` set d0 \<union> f ` set ts"
  by (induction ts arbitrary: d0) (auto simp: keys_dict_set)

lemma values_dict_set: "snd ` set (dict_set d k v) \<subseteq> insert v (snd ` set d)"
  by (induction d k v rule: dict_set.induct) (auto split: if_splits)

lemma values_foldl_dict_set:
  "snd ` set (foldl (\<lambda>d t. dict_set d (f t) (g t)) d0 ts) \<subseteq> snd ` set d0 \<union> g ` set ts"
proof (induction ts arbitrary: d0)
  case Nil
  then show ?case by simp
next
  case (Cons t ts)
  have "snd ` set (foldl (\<lambda>d t. dict_set d (f t) (g t)) (dict_set d0 (f t) (g t)) ts)
      \<subseteq> snd ` set (dict_set d0 (f t) (g t)) \<union> g ` set ts"
    by (rule Cons.IH)
  also have "\<dots> \<subseteq> insert (g t) (snd ` set d0) \<union> g ` set ts"
    using values_dict_set[of d0 "f t" "g t"] by blast
  finally show ?case by auto
qed

lemma keys_tasks_by_id_of: "fst ` set (tasks_by_id_of tasks) = nt_id ` set tasks"
  by (simp add: tasks_by_id_of_def keys_foldl_dict_set)

lemma reverse_add_returns:
  "set deps \<subseteq> fst ` set reverse \<Longrightarrow>
   \<exists>r. reverse_add reverse tid deps = Inr r \<and> fst ` set r = fst ` set reverse"
proof (induction deps arbitrary: reverse)
  case Nil
  then show ?case by simp
next
  case (Cons dep deps)
  from Cons.prems have "dep \<in> fst ` set reverse" by simp
  then obtain xs where xs: "map_of reverse dep = Some xs"
    by (metis dict_has_def dict_has_keys not_Some_eq)
  have k: "fst ` set (dict_set reverse dep (xs @ [tid])) = fst ` set reverse"
    using \<open>dep \<in> fst ` set reverse\<close> by (auto simp: keys_dict_set)
  with Cons.prems have "set deps \<subseteq> fst ` set (dict_set reverse dep (xs @ [tid]))" by simp
  from Cons.IH[OF this] show ?case by (simp add: xs k)
qed

lemma reverse_fill_returns:
  "\<forall>(tid, deps) \<in> set items. set deps \<subseteq> fst ` set reverse \<Longrightarrow>
   \<exists>r. reverse_fill reverse items = Inr r \<and> fst ` set r = fst ` set reverse"
proof (induction items arbitrary: reverse)
  case Nil
  then show ?case by simp
next
  case (Cons item items)
  obtain tid deps where item: "item = (tid, deps)" by (cases item)
  with Cons.prems have "set deps \<subseteq> fst ` set reverse" by simp
  from reverse_add_returns[OF this] obtain r where
    r: "reverse_add reverse tid deps = Inr r" and k: "fst ` set r = fst ` set reverse" by blast
  from Cons.prems k have "\<forall>(tid, deps) \<in> set items. set deps \<subseteq> fst ` set r" by simp
  from Cons.IH[OF this] show ?case by (simp add: item r k)
qed

lemma build_graph_returns:
  "\<exists>forward reverse. build_graph tasks = Inr (tasks_by_id_of tasks, forward, reverse)"
proof -
  let ?tb = "tasks_by_id_of tasks"
  let ?g = "\<lambda>t. filter (\<lambda>dep. dict_has ?tb dep) (nt_dependencies t)"
  let ?fwd = "foldl (\<lambda>d t. dict_set d (nt_id t) (?g t)) [] tasks"
  let ?rev = "foldl (\<lambda>d t. dict_set d (nt_id t) []) [] tasks"
  have krev: "fst ` set ?rev = nt_id ` set tasks"
    by (simp add: keys_foldl_dict_set)
  have "\<forall>(tid, deps) \<in> set ?fwd. set deps \<subseteq> fst ` set ?rev"
  proof (clarify)
    fix tid deps x
    assume "(tid, deps) \<in> set ?fwd" and x: "x \<in> set deps"
    then have "deps \<in> snd ` set ?fwd" by force
    with values_foldl_dict_set[of nt_id ?g "[]" tasks] have "deps \<in> ?g ` set tasks" by auto
    with x have "dict_has ?tb x" by auto
    then show "x \<in> fst ` set ?rev"
      by (simp add: dict_has_keys keys_tasks_by_id_of krev)
  qed
  from reverse_fill_returns[OF this] obtain r where "reverse_fill ?rev ?fwd = Inr r" by blast
  then show ?thesis by (simp add: build_graph_def Let_def)
qed

section \<open>The depth of the search\<close>

lemma finite_unvisited: "finite (unvisited tb s)"
  by (simp add: unvisited_def)

lemma unvisited_cycles_update: "unvisited tb (s\<lparr>ds_cycles := c\<rparr>) = unvisited tb s"
  by (simp add: unvisited_def state_get_def)

lemma unvisited_mark:
  "0 < c \<Longrightarrow> unvisited tb (s\<lparr>ds_state := (ds_state s)(u \<mapsto> c), ds_stack := st\<rparr>) = unvisited tb s - {u}"
  by (auto simp: unvisited_def state_get_def)

lemma unvisited_mark':
  "0 < c \<Longrightarrow> unvisited tb (s\<lparr>ds_stack := st, ds_state := (ds_state s)(u \<mapsto> c)\<rparr>) = unvisited tb s - {u}"
  by (auto simp: unvisited_def state_get_def)

lemma dfs_edges_returns_step:
  assumes P: "\<And>u s. u \<in> unvisited tb s \<Longrightarrow> card (unvisited tb s) \<le> n \<Longrightarrow>
                \<exists>s'. dfs n tb u s = Inr s' \<and> unvisited tb s' \<subseteq> unvisited tb s - {u}"
  shows "card (unvisited tb s) \<le> n \<Longrightarrow>
         \<exists>s'. dfs_edges n tb vs s = Inr s' \<and> unvisited tb s' \<subseteq> unvisited tb s"
proof (induction vs arbitrary: s)
  case Nil
  then show ?case by simp
next
  case (Cons v vs)
  show ?case
  proof (cases "dict_has tb v \<and> state_get s v = 0")
    case True
    then have v: "v \<in> unvisited tb s"
      by (simp add: unvisited_def dict_has_keys)
    from P[OF v Cons.prems] obtain s1 where
      s1: "dfs n tb v s = Inr s1" and sub: "unvisited tb s1 \<subseteq> unvisited tb s - {v}"
      by blast
    from sub have "card (unvisited tb s1) \<le> card (unvisited tb s)"
      by (intro card_mono finite_unvisited) blast
    with Cons.prems have "card (unvisited tb s1) \<le> n" by simp
    from Cons.IH[OF this] obtain s' where
      "dfs_edges n tb vs s1 = Inr s'" and "unvisited tb s' \<subseteq> unvisited tb s1"
      by blast
    with True s1 sub show ?thesis by auto
  next
    case False
    let ?s2 = "s\<lparr>ds_cycles := ds_cycles s @ [drop (index_of (ds_stack s) v) (ds_stack s) @ [v]]\<rparr>"
    from Cons.prems have "card (unvisited tb ?s2) \<le> n"
      by (simp add: unvisited_cycles_update)
    from Cons.IH[OF this] Cons.IH[OF Cons.prems] False show ?thesis
      by (auto simp: unvisited_cycles_update)
  qed
qed

lemma dfs_returns_step:
  assumes Q: "\<And>vs s. card (unvisited tb s) \<le> n \<Longrightarrow>
                \<exists>s'. dfs_edges n tb vs s = Inr s' \<and> unvisited tb s' \<subseteq> unvisited tb s"
    and u: "u \<in> unvisited tb s" and c: "card (unvisited tb s) \<le> Suc n"
  shows "\<exists>s'. dfs (Suc n) tb u s = Inr s' \<and> unvisited tb s' \<subseteq> unvisited tb s - {u}"
proof -
  from u have "u \<in> fst ` set tb" by (simp add: unvisited_def)
  then obtain t where t: "map_of tb u = Some t"
    by (metis dict_has_def dict_has_keys not_Some_eq)
  let ?s0 = "s\<lparr>ds_state := (ds_state s)(u \<mapsto> 1), ds_stack := ds_stack s @ [u]\<rparr>"
  have u0: "unvisited tb ?s0 = unvisited tb s - {u}"
    by (rule unvisited_mark) simp
  have "card (unvisited tb s - {u}) < card (unvisited tb s)"
    using u by (intro card_Diff1_less finite_unvisited)
  with c have "card (unvisited tb ?s0) \<le> n" unfolding u0 by linarith
  from Q[OF this, of "nt_dependencies t"] obtain s1 where
    s1: "dfs_edges n tb (nt_dependencies t) ?s0 = Inr s1" and sub: "unvisited tb s1 \<subseteq> unvisited tb ?s0"
    by blast
  have "unvisited tb (s1\<lparr>ds_stack := butlast (ds_stack s1), ds_state := (ds_state s1)(u \<mapsto> 2)\<rparr>)
      = unvisited tb s1 - {u}"
    by (rule unvisited_mark') simp
  with sub u0 t s1 show ?thesis by auto
qed

lemma dfs_budget:
  "(\<forall>u s. u \<in> unvisited tb s \<longrightarrow> card (unvisited tb s) \<le> n \<longrightarrow>
       (\<exists>s'. dfs n tb u s = Inr s' \<and> unvisited tb s' \<subseteq> unvisited tb s - {u})) \<and>
   (\<forall>vs s. card (unvisited tb s) \<le> n \<longrightarrow>
       (\<exists>s'. dfs_edges n tb vs s = Inr s' \<and> unvisited tb s' \<subseteq> unvisited tb s))"
proof (induction n)
  case 0
  have P0: "\<And>u s. u \<in> unvisited tb s \<Longrightarrow> card (unvisited tb s) \<le> 0 \<Longrightarrow>
      \<exists>s'. dfs 0 tb u s = Inr s' \<and> unvisited tb s' \<subseteq> unvisited tb s - {u}"
    using finite_unvisited by auto
  from dfs_edges_returns_step[of tb 0, OF P0] P0 show ?case by blast
next
  case (Suc n)
  then have Q: "\<And>vs s. card (unvisited tb s) \<le> n \<Longrightarrow>
      \<exists>s'. dfs_edges n tb vs s = Inr s' \<and> unvisited tb s' \<subseteq> unvisited tb s"
    by blast
  have P: "\<And>u s. u \<in> unvisited tb s \<Longrightarrow> card (unvisited tb s) \<le> Suc n \<Longrightarrow>
      \<exists>s'. dfs (Suc n) tb u s = Inr s' \<and> unvisited tb s' \<subseteq> unvisited tb s - {u}"
    by (rule dfs_returns_step[OF Q])
  from dfs_edges_returns_step[of tb "Suc n", OF P] P show ?case by blast
qed

lemma dfs_roots_returns:
  "set tids \<subseteq> fst ` set tb \<Longrightarrow> card (unvisited tb s) \<le> n \<Longrightarrow>
   \<exists>s'. dfs_roots n tb tids s = Inr s'"
proof (induction tids arbitrary: s)
  case Nil
  then show ?case by simp
next
  case (Cons tid tids)
  show ?case
  proof (cases "state_get s tid = 0")
    case True
    with Cons.prems have "tid \<in> unvisited tb s" by (simp add: unvisited_def)
    with dfs_budget[of tb n] Cons.prems obtain s1 where
      s1: "dfs n tb tid s = Inr s1" and sub: "unvisited tb s1 \<subseteq> unvisited tb s - {tid}"
      by blast
    from sub have "card (unvisited tb s1) \<le> card (unvisited tb s)"
      by (intro card_mono finite_unvisited) blast
    with Cons.prems have "card (unvisited tb s1) \<le> n" by simp
    with Cons.IH[of s1] Cons.prems True s1 show ?thesis by auto
  next
    case False
    with Cons.IH[of s] Cons.prems show ?thesis by auto
  qed
qed

text \<open>The search returns when the interpreter lets \<^verbatim>\<open>dfs\<close> nest as many calls as there are
  tasks.\<close>

lemma detect_cycles_returns:
  assumes "card (fst ` set tb) \<le> recursion_budget rt"
  shows "\<exists>cycles. detect_cycles rt tb = Inr cycles"
proof -
  let ?s0 = "\<lparr>ds_state = Map.empty, ds_stack = [], ds_cycles = []\<rparr>"
  have "card (unvisited tb ?s0) \<le> card (fst ` set tb)"
    by (intro card_mono) (auto simp: unvisited_def)
  with assms have "card (unvisited tb ?s0) \<le> recursion_budget rt" by simp
  with dfs_roots_returns[of "map fst tb" tb ?s0 "recursion_budget rt"] obtain s' where
    "dfs_roots (recursion_budget rt) tb (map fst tb) ?s0 = Inr s'" by auto
  then show ?thesis by (simp add: detect_cycles_def)
qed

section \<open>Scores\<close>

lemma working_days_until_nonneg: "today \<le> due \<Longrightarrow> 0 \<le> working_days_until due today"
  by (simp add: working_days_until_def working_days_loop_count)

lemma urgency_antimono:
  assumes "today1 \<le> d1" and "today2 \<le> d2"
      and "working_days_until d1 today1 < working_days_until d2 today2"
  shows "urgency (Some d2) today2 \<le> urgency (Some d1) today1"
proof -
  let ?a = "working_days_until d1 today1" and ?b = "working_days_until d2 today2"
  have a: "0 \<le> ?a" using assms(1) by (rule working_days_until_nonneg)
  have b: "0 \<le> ?b" using assms(2) by (rule working_days_until_nonneg)
  have "1 / (1 + real_of_int ?b / 5) \<le> 1 / (1 + real_of_int ?a / 5)"
    using a assms(3) by (intro divide_left_mono) (auto intro!: mult_pos_pos add_pos_nonneg)
  then show ?thesis
    using a b by (simp add: urgency_def Let_def)
qed

lemma quickwin_returns:
  assumes "- 1 < (case hours of None \<Rightarrow> 4 | Some h \<Rightarrow> h)"
  shows "\<exists>q. quickwin hours max_hours = Inr q"
proof (cases "max_hours \<le> 0")
  case True
  then have "quickwin hours max_hours = Inr (6 / 10)" by (simp add: quickwin_def)
  then show ?thesis by blast
next
  case False
  then have "0 < max_hours" by simp
  from quickwin_value[OF this assms] show ?thesis by blast
qed

lemma score_task_fields:
  assumes "score_task weights key cycle_set reverse max_hours today t = Inr x"
  shows "\<exists>base. task_base weights reverse max_hours today t = Inr base \<and>
           sc_id x = nt_id t \<and>
           sc_score x = py_round2 (base * (1 - (if nt_id t \<in> cycle_set then 15 / 100 else 0)) * 100)"
proof -
  from assms obtain qw where qw: "quickwin (nt_estimated_hours t) max_hours = Inr qw"
    by (auto simp: score_task_def Let_def split: sum.splits)
  let ?base = "w_urgency weights * urgency (nt_due_date t) today +
               w_importance weights * importance (nt_importance t) +
               w_quickwin weights * qw +
               w_blocker weights * blocker_score (downstream_block_count (nt_id t) reverse)"
  have b: "task_base weights reverse max_hours today t = Inr ?base"
    by (simp add: task_base_def qw)
  have "sc_id x = nt_id t"
    using assms unfolding score_task_def Let_def qw by auto
  moreover have "sc_score x = py_round2 (?base * (1 - (if nt_id t \<in> cycle_set then 15 / 100 else 0)) * 100)"
    using assms unfolding score_task_def Let_def qw by auto
  ultimately show ?thesis using b by blast
qed

lemma score_task_Inr:
  assumes "score_task weights key cycle_set reverse max_hours today t = Inr x"
  shows "\<exists>base. task_base weights reverse max_hours today t = Inr base \<and>
           sc_id x = nt_id t \<and>
           sc_score x = py_round2 ((if nt_id t \<in> cycle_set then base * (85 / 100) else base) * 100)"
proof -
  from score_task_fields[OF assms] obtain base where
    b: "task_base weights reverse max_hours today t = Inr base" and i: "sc_id x = nt_id t" and
    s: "sc_score x = py_round2 (base * (1 - (if nt_id t \<in> cycle_set then 15 / 100 else 0)) * 100)"
    by blast
  have "base * (1 - (if nt_id t \<in> cycle_set then 15 / 100 else 0)) =
        (if nt_id t \<in> cycle_set then base * (85 / 100) else base)"
    by simp
  with s have "sc_score x = py_round2 ((if nt_id t \<in> cycle_set then base * (85 / 100) else base) * 100)"
    by (simp only:)
  with b i show ?thesis by blast
qed

lemma score_task_final:
  assumes "score_task weights key cycle_set reverse max_hours today t = Inr x"
  shows "\<exists>final. task_final weights cycle_set reverse max_hours today t = Inr final \<and>
           sc_score x = py_round2 (final * 100)"
proof -
  from score_task_fields[OF assms] obtain base where
    b: "task_base weights reverse max_hours today t = Inr base" and
    s: "sc_score x = py_round2 (base * (1 - (if nt_id t \<in> cycle_set then 15 / 100 else 0)) * 100)"
    by blast
  have "task_final weights cycle_set reverse max_hours today t =
      Inr (base * (1 - (if nt_id t \<in> cycle_set then 15 / 100 else 0)))"
    by (simp add: task_final_def b)
  with s show ?thesis by blast
qed

lemma score_loop_Inr:
  "score_loop weights key cycle_set reverse max_hours today ts acc = Inr out \<Longrightarrow>
   \<exists>scored. out = acc @ scored \<and>
     list_all2 (\<lambda>t x. score_task weights key cycle_set reverse max_hours today t = Inr x) ts scored"
proof (induction ts arbitrary: acc)
  case Nil
  then show ?case by simp
next
  case (Cons t ts)
  from Cons.prems obtain x where x: "score_task weights key cycle_set reverse max_hours today t = Inr x"
    and rest: "score_loop weights key cycle_set reverse max_hours today ts (acc @ [x]) = Inr out"
    by (auto split: sum.splits)
  from Cons.IH[OF rest] obtain scored where "out = (acc @ [x]) @ scored"
    and "list_all2 (\<lambda>t x. score_task weights key cycle_set reverse max_hours today t = Inr x) ts scored"
    by blast
  with x show ?case by (intro exI[of _ "x # scored"]) simp
qed

lemma cycle_nodes_eq: "cycle_nodes cycles = \<Union> (set ` set cycles)"
proof -
  have a: "\<And>c s. fold insert c s = set c \<union> s"
    subgoal for c s by (induction c arbitrary: s) auto
    done
  have "\<And>s. fold (\<lambda>c s. fold insert c s) cycles s = \<Union> (set ` set cycles) \<union> s"
    by (induction cycles) (auto simp: a)
  then show ?thesis by (simp add: cycle_nodes_def)
qed

text \<open>
  Claim C6. Of two tasks that differ in the due date only, both due on or after their
  reference date, the one with strictly fewer working days until its due date has an
  urgency factor at least as large, and under weights with a positive urgency weight its
  unrounded final score is at least as large (cycle set, reverse graph and largest hours
  being those of the batch, the same for both). The estimated hours are absent or positive.
\<close>

theorem fewer_working_days_not_less_urgent:
  assumes "nt_due_date t1 = Some d1" and "t2 = t1\<lparr>nt_due_date := Some d2\<rparr>"
      and "today1 \<le> d1" and "today2 \<le> d2"
      and "working_days_until d1 today1 < working_days_until d2 today2"
      and "case nt_estimated_hours t1 of None \<Rightarrow> True | Some h \<Rightarrow> 0 < h"
  shows "urgency (nt_due_date t2) today2 \<le> urgency (nt_due_date t1) today1 \<and>
         (0 < w_urgency weights \<longrightarrow>
            (\<exists>f1 f2. task_final weights cycle_set reverse max_hours today1 t1 = Inr f1 \<and>
                     task_final weights cycle_set reverse max_hours today2 t2 = Inr f2 \<and>
                     f2 \<le> f1))"
proof -
  have u: "urgency (Some d2) today2 \<le> urgency (Some d1) today1"
    using assms(3,4,5) by (rule urgency_antimono)
  have "- 1 < (case nt_estimated_hours t1 of None \<Rightarrow> 4 | Some h \<Rightarrow> h)"
    using assms(6) by (cases "nt_estimated_hours t1") auto
  then obtain q where q: "quickwin (nt_estimated_hours t1) max_hours = Inr q"
    using quickwin_returns by blast
  have "0 < w_urgency weights \<Longrightarrow>
      w_urgency weights * urgency (Some d2) today2 \<le> w_urgency weights * urgency (Some d1) today1"
    using u by simp
  then show ?thesis
    using u q assms(1,2)
    by (auto simp: task_final_def task_base_def intro!: mult_right_mono)
qed

text \<open>
  The theorem for the holiday scenario: one working day from 2025-10-01 to 2025-10-03
  against two from 2025-11-05 to 2025-11-07, under the weights of \<^verbatim>\<open>smart_balance\<close>.
\<close>

theorem fewer_working_days_not_less_urgent_witness:
  "urgency (Some 739562) 739560 \<le> urgency (Some 739527) 739525 \<and>
   (\<exists>f1 f2.
      task_final \<lparr>w_urgency = 40/100, w_importance = 35/100, w_quickwin = 15/100, w_blocker = 10/100\<rparr>
        {} [(1, [])] 2 739525
        \<lparr>nt_id = 1, nt_title = ''Holiday Crunch'', nt_due_date = Some 739527,
         nt_estimated_hours = Some 2, nt_importance = Some 5, nt_dependencies = []\<rparr> = Inr f1 \<and>
      task_final \<lparr>w_urgency = 40/100, w_importance = 35/100, w_quickwin = 15/100, w_blocker = 10/100\<rparr>
        {} [(1, [])] 2 739560
        \<lparr>nt_id = 1, nt_title = ''Holiday Crunch'', nt_due_date = Some 739562,
         nt_estimated_hours = Some 2, nt_importance = Some 5, nt_dependencies = []\<rparr> = Inr f2 \<and>
      f2 \<le> f1)"
proof -
  have wd: "working_days_until 739527 739525 < working_days_until 739562 739560"
    by code_simp
  show ?thesis
    using fewer_working_days_not_less_urgent[
        where ?t1.0 = "\<lparr>nt_id = 1, nt_title = ''Holiday Crunch'', nt_due_date = Some 739527,
          nt_estimated_hours = Some 2, nt_importance = Some 5, nt_dependencies = []\<rparr>"
        and ?d1.0 = 739527 and ?d2.0 = 739562 and ?today1.0 = 739525 and ?today2.0 = 739560
        and weights = "\<lparr>w_urgency = 40/100, w_importance = 35/100, w_quickwin = 15/100, w_blocker = 10/100\<rparr>"
        and cycle_set = "{}" and reverse = "[(1, [])]" and max_hours = 2,
        OF _ refl _ _ wd]
    by simp
qed

section \<open>The scoring call returns\<close>

lemma score_task_returns:
  assumes "hours_ok t"
  shows "\<exists>x. score_task weights key cycle_set reverse max_hours today t = Inr x"
proof -
  have "- 1 < (case nt_estimated_hours t of None \<Rightarrow> 4 | Some h \<Rightarrow> h)"
    using assms by (cases "nt_estimated_hours t") (auto simp: hours_ok_def)
  then obtain q where "quickwin (nt_estimated_hours t) max_hours = Inr q"
    using quickwin_returns by blast
  then show ?thesis by (simp add: score_task_def Let_def)
qed

lemma score_loop_returns:
  "\<forall>t \<in> set ts. hours_ok t \<Longrightarrow>
   \<exists>out. score_loop weights key cycle_set reverse max_hours today ts acc = Inr out"
proof (induction ts arbitrary: acc)
  case Nil
  then show ?case by simp
next
  case (Cons t ts)
  from Cons.prems have "hours_ok t" by simp
  from score_task_returns[OF this] obtain x where
    "score_task weights key cycle_set reverse max_hours today t = Inr x" by blast
  with Cons.IH Cons.prems show ?case by simp
qed

lemma weights_of_returns: "\<exists>w. weights_of key = Inr w"
  by (simp add: weights_of_def STRATEGY_WEIGHTS_def DEFAULT_STRATEGY_def split: option.splits)

lemma score_tasks_Inr:
  assumes "score_tasks rt tasks strategy today = Inr res"
  shows "\<exists>weights forward reverse scored.
     weights_of (strategy_key_of strategy) = Inr weights \<and>
     build_graph tasks = Inr (tasks_by_id_of tasks, forward, reverse) \<and>
     detect_cycles rt (tasks_by_id_of tasks) = Inr (res_cycles res) \<and>
     list_all2 (\<lambda>t x. score_task weights (strategy_key_of strategy) (cycle_nodes (res_cycles res))
                          reverse (max_hours_of tasks) today t = Inr x) tasks scored \<and>
     res_tasks res = sort_key score_sort_key scored \<and>
     res_strategy_used res = strategy_key_of strategy"
proof -
  obtain forward reverse where g: "build_graph tasks = Inr (tasks_by_id_of tasks, forward, reverse)"
    using build_graph_returns by blast
  from assms obtain weights where w: "weights_of (strategy_key_of strategy) = Inr weights"
    by (auto simp: score_tasks_def Let_def split: sum.splits)
  from assms obtain cycles where c: "detect_cycles rt (tasks_by_id_of tasks) = Inr cycles"
    by (auto simp: score_tasks_def Let_def w g split: sum.splits)
  from assms obtain out where
    l: "score_loop weights (strategy_key_of strategy) (cycle_nodes cycles) reverse (max_hours_of tasks)
          today tasks [] = Inr out"
    by (auto simp: score_tasks_def Let_def w g c split: sum.splits)
  from assms have res: "res = \<lparr>res_tasks = sort_key score_sort_key out, res_cycles = cycles,
      res_strategy_used = strategy_key_of strategy\<rparr>"
    by (simp add: score_tasks_def Let_def w g c l)
  from score_loop_Inr[OF l] have
    "list_all2 (\<lambda>t x. score_task weights (strategy_key_of strategy) (cycle_nodes cycles)
                          reverse (max_hours_of tasks) today t = Inr x) tasks out"
    by simp
  with w g c res show ?thesis by auto
qed

text \<open>\<^verbatim>\<open>score_tasks\<close> returns on tasks with absent or positive hours when the interpreter lets
  \<^verbatim>\<open>dfs\<close> nest as many calls as the batch has ids.\<close>

lemma score_tasks_returns:
  assumes "\<forall>t \<in> set tasks. hours_ok t" and "card (nt_id ` set tasks) \<le> recursion_budget rt"
  shows "\<exists>res. score_tasks rt tasks strategy today = Inr res"
proof -
  obtain w where w: "weights_of (strategy_key_of strategy) = Inr w"
    using weights_of_returns by blast
  obtain forward reverse where g: "build_graph tasks = Inr (tasks_by_id_of tasks, forward, reverse)"
    using build_graph_returns by blast
  have "card (fst ` set (tasks_by_id_of tasks)) \<le> recursion_budget rt"
    using assms(2) by (simp add: keys_tasks_by_id_of)
  then obtain cycles where c: "detect_cycles rt (tasks_by_id_of tasks) = Inr cycles"
    using detect_cycles_returns by blast
  obtain out where "score_loop w (strategy_key_of strategy) (cycle_nodes cycles) reverse
      (max_hours_of tasks) today tasks [] = Inr out"
    using score_loop_returns[OF assms(1)] by blast
  then show ?thesis by (simp add: score_tasks_def Let_def w g c)
qed

lemma cycle_penalty_of_result:
  assumes "score_tasks rt tasks strategy today = Inr res"
  shows "\<exists>weights forward reverse scored.
     weights_of (strategy_key_of strategy) = Inr weights \<and>
     build_graph tasks = Inr (tasks_by_id_of tasks, forward, reverse) \<and>
     detect_cycles rt (tasks_by_id_of tasks) = Inr (res_cycles res) \<and>
     res_tasks res = sort_key score_sort_key scored \<and>
     length scored = length tasks \<and>
     (\<forall>i<length tasks. \<exists>base.
         task_base weights reverse (max_hours_of tasks) today (tasks ! i) = Inr base \<and>
         sc_id (scored ! i) = nt_id (tasks ! i) \<and>
         sc_score (scored ! i) =
           py_round2 ((if \<exists>c\<in>set (res_cycles res). nt_id (tasks ! i) \<in> set c
                       then base * (85 / 100) else base) * 100))"
proof -
  from score_tasks_Inr[OF assms] obtain weights forward reverse scored where
    w: "weights_of (strategy_key_of strategy) = Inr weights" and
    g: "build_graph tasks = Inr (tasks_by_id_of tasks, forward, reverse)" and
    c: "detect_cycles rt (tasks_by_id_of tasks) = Inr (res_cycles res)" and
    l: "list_all2 (\<lambda>t x. score_task weights (strategy_key_of strategy) (cycle_nodes (res_cycles res))
                          reverse (max_hours_of tasks) today t = Inr x) tasks scored" and
    r: "res_tasks res = sort_key score_sort_key scored"
    by blast
  have len: "length scored = length tasks"
    using l by (simp add: list_all2_lengthD)
  have "\<exists>base. task_base weights reverse (max_hours_of tasks) today (tasks ! i) = Inr base \<and>
         sc_id (scored ! i) = nt_id (tasks ! i) \<and>
         sc_score (scored ! i) =
           py_round2 ((if \<exists>c\<in>set (res_cycles res). nt_id (tasks ! i) \<in> set c
                       then base * (85 / 100) else base) * 100)" if "i < length tasks" for i
  proof -
    have "score_task weights (strategy_key_of strategy) (cycle_nodes (res_cycles res))
        reverse (max_hours_of tasks) today (tasks ! i) = Inr (scored ! i)"
      using list_all2_nthD[OF l that] by simp
    from score_task_Inr[OF this] show ?thesis
      by (simp add: cycle_nodes_eq)
  qed
  with w g c r len show ?thesis by blast
qed

text \<open>
  Claim C2. For every batch of tasks and every strategy, the task list that \<^verbatim>\<open>score_tasks\<close>
  returns is the sorted list of one scored record per input task, in which the record of a
  task whose id appears in some detected cycle has the score \<open>base * 0.85\<close>, scaled by 100
  and rounded, and the record of any other task has the score \<open>base\<close>, scaled and rounded;
  \<open>base\<close> is the weighted sum of the four factors. The penalty does not depend on the
  number of cycles the id appears in. \<^verbatim>\<open>score_tasks\<close> does return when the estimated hours
  are absent or positive and the interpreter lets \<^verbatim>\<open>dfs\<close> nest as many calls as the batch has
  ids.
\<close>

theorem cycle_penalty_applied_once:
  "(\<forall>res. score_tasks rt tasks strategy today = Inr res \<longrightarrow>
      (\<exists>weights forward reverse scored.
         weights_of (strategy_key_of strategy) = Inr weights \<and>
         build_graph tasks = Inr (tasks_by_id_of tasks, forward, reverse) \<and>
         detect_cycles rt (tasks_by_id_of tasks) = Inr (res_cycles res) \<and>
         res_tasks res = sort_key score_sort_key scored \<and>
         length scored = length tasks \<and>
         (\<forall>i<length tasks. \<exists>base.
             task_base weights reverse (max_hours_of tasks) today (tasks ! i) = Inr base \<and>
             sc_id (scored ! i) = nt_id (tasks ! i) \<and>
             sc_score (scored ! i) =
               py_round2 ((if \<exists>c\<in>set (res_cycles res). nt_id (tasks ! i) \<in> set c
                           then base * (85 / 100) else base) * 100)))) \<and>
   ((\<forall>t \<in> set tasks. hours_ok t) \<and> card (nt_id ` set tasks) \<le> recursion_budget rt \<longrightarrow>
      (\<exists>res. score_tasks rt tasks strategy today = Inr res))"
  using cycle_penalty_of_result[of rt tasks strategy today]
    score_tasks_returns[of tasks rt strategy today]
  by blast

text \<open>
  The theorem for a batch of three tasks, the first two depending on each other: the call
  returns, the detected cycle is \<open>[1, 2, 1]\<close>, and there are three scored records.
\<close>

theorem cycle_penalty_applied_once_witness:
  "\<exists>res. score_tasks plain_runtime
       [\<lparr>nt_id = 1, nt_title = ''a'', nt_due_date = None, nt_estimated_hours = None,
         nt_importance = None, nt_dependencies = [2]\<rparr>,
        \<lparr>nt_id = 2, nt_title = ''b'', nt_due_date = None, nt_estimated_hours = None,
         nt_importance = None, nt_dependencies = [1]\<rparr>,
        \<lparr>nt_id = 3, nt_title = ''c'', nt_due_date = None, nt_estimated_hours = None,
         nt_importance = None, nt_dependencies = []\<rparr>] ''smart_balance'' 739525 = Inr res \<and>
     res_cycles res = [[1, 2, 1]] \<and>
     (\<exists>scored. res_tasks res = sort_key score_sort_key scored \<and> length scored = 3)"
proof -
  let ?ts = "[\<lparr>nt_id = 1, nt_title = ''a'', nt_due_date = None, nt_estimated_hours = None,
         nt_importance = None, nt_dependencies = [2]\<rparr>,
        \<lparr>nt_id = 2, nt_title = ''b'', nt_due_date = None, nt_estimated_hours = None,
         nt_importance = None, nt_dependencies = [1]\<rparr>,
        \<lparr>nt_id = 3, nt_title = ''c'', nt_due_date = None, nt_estimated_hours = None,
         nt_importance = None, nt_dependencies = []\<rparr>]"
  note inst = cycle_penalty_applied_once[of plain_runtime ?ts "''smart_balance''" 739525]
  have ok: "\<forall>t \<in> set ?ts. hours_ok t"
    by (simp add: hours_ok_def)
  have "card (nt_id ` set ?ts) \<le> 3"
    by (rule order_trans[OF card_image_le]) (simp_all add: card_insert_if)
  then have small: "card (nt_id ` set ?ts) \<le> recursion_budget plain_runtime"
    by (simp add: plain_runtime_def)
  obtain k where b: "recursion_budget plain_runtime = Suc (Suc k)"
    using plain_budget by blast
  have c: "detect_cycles plain_runtime (tasks_by_id_of ?ts) = Inr [[1, 2, 1]]"
    by (simp add: dfs_eval b)
  from inst ok small obtain res where
    r: "score_tasks plain_runtime ?ts ''smart_balance'' 739525 = Inr res"
    by blast
  with inst obtain scored where
    d: "detect_cycles plain_runtime (tasks_by_id_of ?ts) = Inr (res_cycles res)" and
    o: "res_tasks res = sort_key score_sort_key scored" and
    l: "length scored = length ?ts"
    by blast
  from d c have "res_cycles res = [[1, 2, 1]]"
    by simp
  moreover from l have "length scored = 3"
    by simp
  ultimately show ?thesis
    using r o by blast
qed

section \<open>One scored record per input record\<close>

lemma score_tasks_length:
  assumes "score_tasks rt tasks strategy today = Inr res"
  shows "length (res_tasks res) = length tasks \<and> mset (map sc_id (res_tasks res)) = mset (map nt_id tasks)"
proof -
  from score_tasks_Inr[OF assms] obtain weights reverse scored where
    l: "list_all2 (\<lambda>t x. score_task weights (strategy_key_of strategy) (cycle_nodes (res_cycles res))
                          reverse (max_hours_of tasks) today t = Inr x) tasks scored" and
    r: "res_tasks res = sort_key score_sort_key scored"
    by blast
  have "list_all2 (\<lambda>t x. nt_id t = sc_id x) tasks scored"
    using l by (rule list_all2_mono) (use score_task_fields in fastforce)
  then have "map nt_id tasks = map sc_id scored"
    by (simp add: list.rel_map list.rel_eq[symmetric] list_all2_conv_all_nth nth_equalityI)
  moreover have "length scored = length tasks"
    using l by (simp add: list_all2_lengthD)
  ultimately show ?thesis
    by (simp add: r)
qed

lemma fromisoformat_error: "fromisoformat s = Inl e \<Longrightarrow> e = ValueError"
  by (simp add: fromisoformat_def Let_def split: if_splits)

lemma parse_date_returns: "\<exists>d. parse_date v = Inr d"
  using fromisoformat_error
  by (auto simp: parse_date_def split: raw.splits sum.splits)

lemma parse_float_positive: "parse_float rt v = Some x \<Longrightarrow> 0 < x"
  by (auto simp: parse_float_def split: if_splits sum.splits)

lemma normalize_task_returns:
  "\<exists>task ws. normalize_task rt idx t warnings = Inr (task, ws) \<and> hours_ok task"
proof -
  obtain due where d: "parse_date (rec_get t ''due_date'') = Inr due"
    using parse_date_returns by blast
  have "hours_ok task" if "nt_estimated_hours task = parse_float rt (rec_get t ''estimated_hours'')" for task
    using that parse_float_positive[of rt "rec_get t ''estimated_hours''"]
    by (auto simp: hours_ok_def split: option.splits)
  then show ?thesis
    by (simp add: normalize_task_def Let_def d split_beta)
qed

lemma normalize_loop_returns:
  "\<exists>ts ws. normalize_loop rt idx raws acc warnings = Inr (acc @ ts, ws) \<and>
           length ts = length raws \<and> (\<forall>t \<in> set ts. hours_ok t)"
proof (induction raws arbitrary: idx acc warnings)
  case Nil
  then show ?case by simp
next
  case (Cons r raws)
  obtain task ws where n: "normalize_task rt idx r warnings = Inr (task, ws)" and h: "hours_ok task"
    using normalize_task_returns by blast
  from Cons.IH[of "Suc idx" "acc @ [task]" ws] obtain ts ws' where
    "normalize_loop rt (Suc idx) raws (acc @ [task]) ws = Inr ((acc @ [task]) @ ts, ws')"
    "length ts = length raws" "\<forall>t \<in> set ts. hours_ok t"
    by blast
  with n h show ?case
    by (intro exI[of _ "task # ts"] exI[of _ ws']) simp
qed

text \<open>
  Every batch of records normalizes to as many tasks. A call of \<^verbatim>\<open>score_tasks\<close> on them that
  returns, returns as many records as there are tasks, with the same ids counted with
  multiplicity; and the call returns when the interpreter lets \<^verbatim>\<open>dfs\<close> nest as many calls
  as the batch has ids.
\<close>

lemma scored_records_within_budget:
  "\<exists>tasks warnings.
      normalize_tasks rt raw_tasks = Inr (tasks, warnings) \<and>
      length tasks = length raw_tasks \<and>
      (\<forall>res. score_tasks rt tasks strategy today = Inr res \<longrightarrow>
         length (res_tasks res) = length tasks \<and>
         mset (map sc_id (res_tasks res)) = mset (map nt_id tasks)) \<and>
      (card (nt_id ` set tasks) \<le> recursion_budget rt \<longrightarrow>
         (\<exists>res. score_tasks rt tasks strategy today = Inr res))"
proof -
  from normalize_loop_returns[of rt 0 raw_tasks "[]" "[]"] obtain tasks warnings where
    n: "normalize_tasks rt raw_tasks = Inr (tasks, warnings)" and
    len: "length tasks = length raw_tasks" and ok: "\<forall>t \<in> set tasks. hours_ok t"
    by (auto simp: normalize_tasks_def)
  have "\<forall>res. score_tasks rt tasks strategy today = Inr res \<longrightarrow>
         length (res_tasks res) = length tasks \<and>
         mset (map sc_id (res_tasks res)) = mset (map nt_id tasks)"
    using score_tasks_length by blast
  moreover have "card (nt_id ` set tasks) \<le> recursion_budget rt \<longrightarrow>
         (\<exists>res. score_tasks rt tasks strategy today = Inr res)"
    using score_tasks_returns[OF ok] by blast
  ultimately show ?thesis
    using n len by blast
qed

subsection \<open>A chain of dependencies deeper than the recursion limit\<close>

lemma dict_set_new: "k \<notin> fst ` set d \<Longrightarrow> dict_set d k v = d @ [(k, v)]"
  by (induction d k v rule: dict_set.induct) auto

lemma foldl_dict_set_distinct:
  "distinct (map fst d @ map f ts) \<Longrightarrow>
   foldl (\<lambda>d t. dict_set d (f t) t) d ts = d @ map (\<lambda>t. (f t, t)) ts"
proof (induction ts arbitrary: d)
  case Nil
  then show ?case by simp
next
  case (Cons t ts)
  from Cons.prems have new: "f t \<notin> fst ` set d" by auto
  from Cons.prems have "distinct (map fst (d @ [(f t, t)]) @ map f ts)" by auto
  from Cons.IH[OF this] new show ?case by (simp add: dict_set_new)
qed

lemma tasks_by_id_of_chain:
  "tasks_by_id_of (dependency_chain n) = map (\<lambda>i. (int i + 1, chain_task i)) [0..<n]"
proof -
  have "distinct (map nt_id (dependency_chain n))"
    by (simp add: dependency_chain_def distinct_map inj_on_def chain_task_def comp_def)
  then have "tasks_by_id_of (dependency_chain n) = map (\<lambda>t. (nt_id t, t)) (dependency_chain n)"
    using foldl_dict_set_distinct[of "[]" nt_id "dependency_chain n"]
    by (simp add: tasks_by_id_of_def)
  then show ?thesis
    by (simp add: dependency_chain_def comp_def chain_task_def)
qed

lemma map_of_chain:
  "p < n \<Longrightarrow> map_of (tasks_by_id_of (dependency_chain n)) (int p + 1) = Some (chain_task p)"
proof -
  assume "p < n"
  have "distinct (map fst (map (\<lambda>i. (int i + 1, chain_task i)) [0..<n]))"
    by (simp add: distinct_map inj_on_def comp_def)
  moreover have "(int p + 1, chain_task p) \<in> set (map (\<lambda>i. (int i + 1, chain_task i)) [0..<n])"
    using \<open>p < n\<close> by auto
  ultimately show ?thesis
    unfolding tasks_by_id_of_chain by (rule map_of_is_SomeI)
qed

text \<open>With a budget of \<open>k\<close> calls, \<^verbatim>\<open>dfs\<close> started at a task of the chain that has at least \<open>k\<close>
  unvisited tasks after it exhausts the budget.\<close>

lemma dfs_chain_too_deep:
  "p + k < n \<Longrightarrow> (\<forall>j. p < j \<longrightarrow> state_get s (int j + 1) = 0) \<Longrightarrow>
   dfs k (tasks_by_id_of (dependency_chain n)) (int p + 1) s = Inl RecursionError"
proof (induction k arbitrary: p s)
  case 0
  show ?case by simp
next
  case (Suc k)
  let ?tb = "tasks_by_id_of (dependency_chain n)"
  let ?s0 = "s\<lparr>ds_state := (ds_state s)(int p + 1 \<mapsto> 1), ds_stack := ds_stack s @ [int p + 1]\<rparr>"
  from Suc.prems have t: "map_of ?tb (int p + 1) = Some (chain_task p)"
    by (intro map_of_chain) simp
  have nxt: "int (Suc p) + 1 = int p + 2"
    by simp
  from Suc.prems have "map_of ?tb (int (Suc p) + 1) = Some (chain_task (Suc p))"
    by (intro map_of_chain) simp
  then have has: "dict_has ?tb (int p + 2)"
    unfolding nxt by (simp add: dict_has_def)
  have free: "state_get ?s0 (int j + 1) = 0" if "p < j" for j
    using that Suc.prems(2) by (simp add: state_get_def)
  have "state_get ?s0 (int (Suc p) + 1) = 0"
    by (rule free) simp
  then have "state_get ?s0 (int p + 2) = 0"
    unfolding nxt .
  moreover have "dfs k ?tb (int (Suc p) + 1) ?s0 = Inl RecursionError"
    using Suc.prems(1) free by (intro Suc.IH) simp_all
  then have "dfs k ?tb (int p + 2) ?s0 = Inl RecursionError"
    unfolding nxt .
  ultimately show ?case
    using t has by (simp add: chain_task_def)
qed

lemma detect_cycles_chain:
  "detect_cycles rt (tasks_by_id_of (dependency_chain (Suc (recursion_budget rt)))) = Inl RecursionError"
proof -
  let ?n = "Suc (recursion_budget rt)"
  let ?s0 = "\<lparr>ds_state = Map.empty, ds_stack = [], ds_cycles = []\<rparr>"
  have "dfs (recursion_budget rt) (tasks_by_id_of (dependency_chain ?n)) (int 0 + 1) ?s0
      = Inl RecursionError"
    by (rule dfs_chain_too_deep) (simp_all add: state_get_def)
  moreover have "map fst (tasks_by_id_of (dependency_chain ?n)) = 1 # map (\<lambda>i. int i + 1) [1..<?n]"
    unfolding tasks_by_id_of_chain by (simp add: comp_def upt_conv_Cons del: upt_Suc)
  ultimately show ?thesis
    by (simp add: detect_cycles_def state_get_def)
qed

lemma normalize_task_chain:
  "normalize_task rt i (chain_record i) ws = Inr (chain_task i, ws)"
  by (simp add: normalize_task_def chain_record_def chain_task_def rec_get_def parse_date_def
      parse_float_def clamp_int_def in_none_empty_def in_none_empty_list_def py_int_def py_str_def
      strip_def Let_def)

lemma normalize_loop_chain:
  "normalize_loop rt i (map chain_record [i..<i + m]) acc ws
     = Inr (acc @ map chain_task [i..<i + m], ws)"
proof (induction m arbitrary: i acc)
  case 0
  show ?case by simp
next
  case (Suc m)
  have "[i..<i + Suc m] = i # [Suc i..<Suc i + m]"
    by (simp add: upt_conv_Cons del: upt_Suc)
  with Suc[of "Suc i" "acc @ [chain_task i]"] show ?case
    by (simp add: normalize_task_chain del: upt_Suc)
qed

text \<open>
  Claim C4 fails on the code. The batch of \<open>n\<close> records with the ids 1 to \<open>n\<close>, each depending
  on the next id, normalizes to \<open>n\<close> tasks without any warning; and when \<open>n\<close> is one more than
  the number of calls the interpreter lets \<^verbatim>\<open>dfs\<close> nest, \<^verbatim>\<open>score_tasks\<close> raises
  \<^verbatim>\<open>RecursionError\<close> on these tasks, whatever the strategy and the date, instead of returning
  one scored record for each of them.
\<close>

theorem deep_dependency_chain_raises:
  "normalize_tasks rt (chain_records n) = Inr (dependency_chain n, []) \<and>
   score_tasks rt (dependency_chain (Suc (recursion_budget rt))) strategy today
     = Inl RecursionError"
proof -
  have "normalize_tasks rt (chain_records n) = Inr (dependency_chain n, [])"
    using normalize_loop_chain[of rt 0 n "[]" "[]"]
    by (simp add: normalize_tasks_def chain_records_def dependency_chain_def)
  moreover obtain w where "weights_of (strategy_key_of strategy) = Inr w"
    using weights_of_returns by blast
  moreover obtain forward reverse where
    "build_graph (dependency_chain (Suc (recursion_budget rt)))
       = Inr (tasks_by_id_of (dependency_chain (Suc (recursion_budget rt))), forward, reverse)"
    using build_graph_returns by blast
  ultimately show ?thesis
    by (simp add: score_tasks_def detect_cycles_chain)
qed

section \<open>Normalization of malformed records\<close>

lemmas normalize_eval =
  normalize_tasks_def normalize_task_def rec_get_def parse_date_def parse_float_def clamp_int_def
  in_none_empty_def in_none_empty_list_def py_int_def py_float_def py_str_def int_of_string_def
  to_ascii_def c_space_def strip_def is_space_def int_body_ok_def is_digit_def digits_value_def
  digit_value_def
  fromisoformat_def show_int_def show_nat.simps quote_def Let_def

text \<open>
  \<^verbatim>\<open>int\<close> on strings with white space: the separator 28 is stripped by \<^verbatim>\<open>str.strip()\<close> but
  refused by \<^verbatim>\<open>int\<close>, in a string of ASCII characters or not; the no-break space 160 and the
  next-line character 133 are skipped.
\<close>

lemma int_of_string_white_space:
  "int_of_string rt [CHR 0x1C, CHR ''2''] = Inl ValueError"
  "int_of_string rt [CHR 0xA0, CHR ''2''] = Inr 2"
  "int_of_string rt [CHR 0x85, CHR ''-'', CHR ''1'', CHR ''_'', CHR ''0'', CHR '' ''] = Inr (- 10)"
  "int_of_string rt [CHR 0xA0, CHR 0x1C, CHR ''2''] = Inl ValueError"
  "strip [CHR 0x1C, CHR ''2'', CHR 0xA0] = ''2''"
  by (simp_all add: int_of_string_def to_ascii_def c_space_def is_space_def strip_def
      int_body_ok_def is_digit_def digits_value_def digit_value_def)

text \<open>
  Claim C8. \<^verbatim>\<open>normalize_tasks\<close> returns for every batch of records, whatever the values of
  their fields. The record with id \<^verbatim>\<open>"100"\<close>, due date \<^verbatim>\<open>"Tomorrow"\<close>, estimated hours -5,
  importance \<^verbatim>\<open>"High"\<close> and dependencies \<^verbatim>\<open>"None"\<close> normalizes to id 100, no due date, no
  estimated hours, no importance and no dependencies; its first warning contains the text
  \<^verbatim>\<open>invalid due_date\<close>; an absent importance is scored as importance 5.
\<close>

theorem normalize_tasks_never_raises:
  "(\<exists>tasks warnings. normalize_tasks rt raw_tasks = Inr (tasks, warnings)) \<and>
   normalize_tasks rt
     [[''id'' \<mapsto> RStr ''100'', ''due_date'' \<mapsto> RStr ''Tomorrow'', ''estimated_hours'' \<mapsto> RInt (- 5),
       ''importance'' \<mapsto> RStr ''High'', ''dependencies'' \<mapsto> RStr ''None'']]
   = Inr ([\<lparr>nt_id = 100, nt_title = ''Untitled Task 100'', nt_due_date = None,
            nt_estimated_hours = None, nt_importance = None, nt_dependencies = []\<rparr>],
          [''Task 100: '' @ ''invalid due_date'' @ '' -> treated as missing'',
           ''Task 100: estimated_hours must be a positive number -> treated as missing'',
           ''Task 100: invalid importance -> treated as missing'',
           ''Task 100: dependencies is not a list -> ignored'']) \<and>
   importance None = importance (Some 5)"
proof -
  have a: "\<exists>tasks warnings. normalize_tasks rt raw_tasks = Inr (tasks, warnings)"
    using normalize_loop_returns[of rt 0 raw_tasks "[]" "[]"] by (auto simp: normalize_tasks_def)
  have b: "normalize_tasks rt
     [[''id'' \<mapsto> RStr ''100'', ''due_date'' \<mapsto> RStr ''Tomorrow'', ''estimated_hours'' \<mapsto> RInt (- 5),
       ''importance'' \<mapsto> RStr ''High'', ''dependencies'' \<mapsto> RStr ''None'']]
   = Inr ([\<lparr>nt_id = 100, nt_title = ''Untitled Task 100'', nt_due_date = None,
            nt_estimated_hours = None, nt_importance = None, nt_dependencies = []\<rparr>],
          [''Task 100: '' @ ''invalid due_date'' @ '' -> treated as missing'',
           ''Task 100: estimated_hours must be a positive number -> treated as missing'',
           ''Task 100: invalid importance -> treated as missing'',
           ''Task 100: dependencies is not a list -> ignored''])"
    by (simp add: normalize_eval)
  have c: "importance None = importance (Some 5)"
    by (simp add: importance_def)
  from a b c show ?thesis by blast
qed

section \<open>Ids after normalization\<close>

lemma normalize_task_id:
  "normalize_task rt idx t warnings = Inr (task, ws) \<Longrightarrow> nt_id task = assigned_id rt idx t"
proof -
  assume a: "normalize_task rt idx t warnings = Inr (task, ws)"
  obtain due where d: "parse_date (rec_get t ''due_date'') = Inr due"
    using parse_date_returns by blast
  from a show ?thesis
    unfolding normalize_task_def assigned_id_def Let_def d
    by (auto simp: split_beta split: sum.splits)
qed

lemma normalize_loop_ids:
  "normalize_loop rt idx raws acc warnings = Inr (out, ws) \<Longrightarrow>
   \<exists>ts. out = acc @ ts \<and> length ts = length raws \<and>
        (\<forall>j<length raws. nt_id (ts ! j) = assigned_id rt (idx + j) (raws ! j))"
proof (induction raws arbitrary: idx acc warnings)
  case Nil
  then show ?case by simp
next
  case (Cons r raws)
  from Cons.prems obtain task ws1 where
    n: "normalize_task rt idx r warnings = Inr (task, ws1)" and
    rest: "normalize_loop rt (Suc idx) raws (acc @ [task]) ws1 = Inr (out, ws)"
    by (auto split: sum.splits)
  from Cons.IH[OF rest] obtain ts where
    ts: "out = (acc @ [task]) @ ts" "length ts = length raws"
        "\<forall>j<length raws. nt_id (ts ! j) = assigned_id rt (Suc idx + j) (raws ! j)"
    by blast
  have "nt_id ((task # ts) ! j) = assigned_id rt (idx + j) ((r # raws) ! j)" if "j < length (r # raws)" for j
  proof (cases j)
    case 0
    then show ?thesis using normalize_task_id[OF n] by simp
  next
    case (Suc k)
    with that ts(3) show ?thesis by simp
  qed
  with ts show ?case by (intro exI[of _ "task # ts"]) simp
qed

text \<open>
  Claim C9, as stated, fails: two tasks returned by \<^verbatim>\<open>normalize_tasks\<close> can share an id. The
  first record below supplies the id 2, the second has no id and is given its 1-based
  position, 2.
\<close>

theorem normalized_ids_collide:
  "normalize_tasks plain_runtime [[''id'' \<mapsto> RInt 2], Map.empty]
     = Inr ([\<lparr>nt_id = 2, nt_title = ''Untitled Task 2'', nt_due_date = None,
              nt_estimated_hours = None, nt_importance = None, nt_dependencies = []\<rparr>,
             \<lparr>nt_id = 2, nt_title = ''Untitled Task 2'', nt_due_date = None,
              nt_estimated_hours = None, nt_importance = None, nt_dependencies = []\<rparr>], []) \<and>
   \<not> distinct (map nt_id
     [\<lparr>nt_id = 2, nt_title = ''Untitled Task 2'', nt_due_date = None,
              nt_estimated_hours = None, nt_importance = None, nt_dependencies = []\<rparr>,
             \<lparr>nt_id = 2, nt_title = ''Untitled Task 2'', nt_due_date = None,
              nt_estimated_hours = None, nt_importance = None, nt_dependencies = []\<rparr>])"
  by (simp add: normalize_eval)

text \<open>
  Claim C9, amended. After normalization the id of every task is an integer: the value
  \<^verbatim>\<open>int(id)\<close> of the record's id when that coercion succeeds, and the 1-based input position
  otherwise. When the id of every record is absent or invalid, the ids are 1 to n and hence
  pairwise distinct. Uniqueness of the ids is not established in general.
\<close>

theorem normalized_ids:
  "\<exists>tasks warnings.
      normalize_tasks rt raw_tasks = Inr (tasks, warnings) \<and>
      length tasks = length raw_tasks \<and>
      (\<forall>i<length raw_tasks. nt_id (tasks ! i) = assigned_id rt i (raw_tasks ! i)) \<and>
      ((\<forall>t \<in> set raw_tasks. case t ''id'' of None \<Rightarrow> True | Some v \<Rightarrow> isl (py_int rt v)) \<longrightarrow>
         map nt_id tasks = map (\<lambda>i. int i + 1) [0..<length raw_tasks] \<and> distinct (map nt_id tasks))"
proof -
  obtain tasks warnings where n: "normalize_tasks rt raw_tasks = Inr (tasks, warnings)"
    using normalize_loop_returns[of rt 0 raw_tasks "[]" "[]"] by (auto simp: normalize_tasks_def)
  from normalize_loop_ids[of rt 0 raw_tasks "[]" "[]" tasks warnings] n have
    len: "length tasks = length raw_tasks" and
    ids: "\<forall>i<length raw_tasks. nt_id (tasks ! i) = assigned_id rt i (raw_tasks ! i)"
    by (auto simp: normalize_tasks_def)
  have "map nt_id tasks = map (\<lambda>i. int i + 1) [0..<length raw_tasks] \<and> distinct (map nt_id tasks)"
    if inv: "\<forall>t \<in> set raw_tasks. case t ''id'' of None \<Rightarrow> True | Some v \<Rightarrow> isl (py_int rt v)"
  proof -
    have "assigned_id rt i (raw_tasks ! i) = int i + 1" if "i < length raw_tasks" for i
    proof -
      from that inv have "case (raw_tasks ! i) ''id'' of None \<Rightarrow> True | Some v \<Rightarrow> isl (py_int rt v)"
        by simp
      then show ?thesis
        by (auto simp: assigned_id_def py_int_def isl_def split: option.splits sum.splits)
    qed
    with ids len have m: "map nt_id tasks = map (\<lambda>i. int i + 1) [0..<length raw_tasks]"
      by (intro nth_equalityI) simp_all
    have "distinct (map (\<lambda>i. int i + 1) [0..<length raw_tasks])"
      by (simp add: distinct_map inj_on_def)
    with m show ?thesis by simp
  qed
  with n len ids show ?thesis by blast
qed

text \<open>The theorem for a record whose id is the digit 2 after the separator 28, which \<^verbatim>\<open>int\<close>
  refuses, followed by a record without id.\<close>

theorem normalized_ids_witness:
  "\<exists>tasks warnings.
      normalize_tasks plain_runtime [[''id'' \<mapsto> RStr [CHR 0x1C, CHR ''2'']], Map.empty]
        = Inr (tasks, warnings) \<and>
      map nt_id tasks = [1, 2]"
proof -
  have "\<forall>t \<in> set [[''id'' \<mapsto> RStr [CHR 0x1C, CHR ''2'']], Map.empty].
          case t ''id'' of None \<Rightarrow> True | Some v \<Rightarrow> isl (py_int plain_runtime v)"
    by (simp add: py_int_def int_of_string_def to_ascii_def c_space_def int_body_ok_def is_digit_def)
  with normalized_ids[of plain_runtime "[[''id'' \<mapsto> RStr [CHR 0x1C, CHR ''2'']], Map.empty]"]
  show ?thesis by (auto simp: upt_rec)
qed

section \<open>Tasks on a cycle count themselves\<close>

lemma downstream_loop_closed:
  assumes "\<forall>x \<in> seen. set (get_list reverse x) \<subseteq> seen \<union> set stack"
  shows "seen \<union> set stack \<subseteq> downstream_loop reverse seen stack \<and>
         (\<forall>x \<in> downstream_loop reverse seen stack.
            set (get_list reverse x) \<subseteq> downstream_loop reverse seen stack)"
  using assms
proof (induction reverse seen stack rule: downstream_loop.induct)
  case (1 reverse seen stack)
  show ?case
  proof (cases "stack = []")
    case True
    with "1.prems" show ?thesis by (subst (1 2 3) downstream_loop.simps) auto
  next
    case False
    then have st: "set stack = insert (last stack) (set (butlast stack))"
      by (metis append_butlast_last_id list.simps(15) rotate1.simps(2) set_rotate1)
    show ?thesis
    proof (cases "last stack \<in> seen")
      case True
      have eq: "downstream_loop reverse seen stack = downstream_loop reverse seen (butlast stack)"
        using False True by (subst downstream_loop.simps) simp
      have "\<forall>x \<in> seen. set (get_list reverse x) \<subseteq> seen \<union> set (butlast stack)"
        using "1.prems" True st by auto
      from "1.IH"(1)[OF False True this] True st show ?thesis
        unfolding eq by auto
    next
      case nseen: False
      let ?u = "last stack"
      have eq: "downstream_loop reverse seen stack =
          downstream_loop reverse (insert ?u seen) (butlast stack @ get_list reverse ?u)"
        using False nseen by (subst downstream_loop.simps) simp
      have "\<forall>x \<in> insert ?u seen.
          set (get_list reverse x) \<subseteq> insert ?u seen \<union> set (butlast stack @ get_list reverse ?u)"
        using "1.prems" st by auto
      from "1.IH"(2)[OF False nseen this] st show ?thesis
        unfolding eq by auto
    qed
  qed
qed

lemma downstream_seen_reachable:
  assumes "(u, v) \<in> {(a, b). b \<in> set (get_list reverse a)}\<^sup>+"
  shows "v \<in> downstream_seen u reverse"
proof -
  let ?S = "downstream_seen u reverse"
  have "{} \<union> set (get_list reverse u) \<subseteq> ?S \<and> (\<forall>x \<in> ?S. set (get_list reverse x) \<subseteq> ?S)"
    unfolding downstream_seen_def by (rule downstream_loop_closed) simp
  then have start: "set (get_list reverse u) \<subseteq> ?S" and closed: "\<And>x. x \<in> ?S \<Longrightarrow> set (get_list reverse x) \<subseteq> ?S"
    by auto
  from assms show ?thesis
  proof (induction rule: trancl_induct)
    case (base y)
    with start show ?case by auto
  next
    case (step y z)
    with closed[of y] show ?case by auto
  qed
qed

lemma get_list_dict_set:
  "get_list (dict_set d k v) a = (if a = k then v else get_list d a)"
  by (simp add: get_list_def map_of_dict_set)

lemma reverse_add_edges:
  "reverse_add reverse tid deps = Inr r \<Longrightarrow>
   set (get_list r a) = set (get_list reverse a) \<union> (if a \<in> set deps then {tid} else {})"
proof (induction deps arbitrary: reverse)
  case Nil
  then show ?case by simp
next
  case (Cons dep deps)
  from Cons.prems obtain xs where xs: "map_of reverse dep = Some xs" and
    rest: "reverse_add (dict_set reverse dep (xs @ [tid])) tid deps = Inr r"
    by (auto split: option.splits)
  have g: "get_list reverse dep = xs" by (simp add: get_list_def xs)
  from Cons.IH[OF rest] show ?case
    by (auto simp: get_list_dict_set g split: if_splits)
qed

lemma reverse_fill_edges:
  "reverse_fill reverse items = Inr r \<Longrightarrow>
   set (get_list r a) = set (get_list reverse a) \<union> {tid. \<exists>deps. (tid, deps) \<in> set items \<and> a \<in> set deps}"
proof (induction items arbitrary: reverse)
  case Nil
  then show ?case by simp
next
  case (Cons item items)
  obtain tid deps where item: "item = (tid, deps)" by (cases item)
  from Cons.prems obtain r1 where r1: "reverse_add reverse tid deps = Inr r1" and
    rest: "reverse_fill r1 items = Inr r"
    by (auto simp: item split: sum.splits)
  from Cons.IH[OF rest] reverse_add_edges[OF r1, of a] show ?case
    by (auto simp: item)
qed

lemma build_graph_reverse_edge:
  assumes "build_graph tasks = Inr (tasks_by_id, forward, reverse)"
      and "b \<in> set (get_list forward a)"
  shows "a \<in> set (get_list reverse b)"
proof -
  let ?rev = "foldl (\<lambda>d t. dict_set d (nt_id t) []) [] tasks"
  from assms(1) have f: "reverse_fill ?rev forward = Inr reverse"
    by (auto simp: build_graph_def Let_def split: sum.splits)
  from assms(2) obtain deps where "map_of forward a = Some deps" and "b \<in> set deps"
    by (cases "map_of forward a") (auto simp: get_list_def)
  then have "(a, deps) \<in> set forward" by (simp add: map_of_SomeD)
  with \<open>b \<in> set deps\<close> reverse_fill_edges[OF f, of b] show ?thesis by auto
qed

lemma get_list_subset: "set (get_list reverse u) \<subseteq> all_values reverse"
proof (cases "map_of reverse u")
  case None
  then show ?thesis by (simp add: get_list_def)
next
  case (Some xs)
  then have "(u, xs) \<in> set reverse" by (rule map_of_SomeD)
  then have "set xs \<subseteq> all_values reverse" unfolding all_values_def by force
  with Some show ?thesis by (simp add: get_list_def)
qed

lemma downstream_loop_subset:
  "downstream_loop reverse seen stack \<subseteq> seen \<union> set stack \<union> all_values reverse"
proof (induction reverse seen stack rule: downstream_loop.induct)
  case (1 reverse seen stack)
  show ?case
  proof (cases "stack = []")
    case True
    then show ?thesis by (subst downstream_loop.simps) simp
  next
    case False
    then have st: "set stack = insert (last stack) (set (butlast stack))"
      by (metis append_butlast_last_id list.simps(15) rotate1.simps(2) set_rotate1)
    show ?thesis
    proof (cases "last stack \<in> seen")
      case True
      have eq: "downstream_loop reverse seen stack = downstream_loop reverse seen (butlast stack)"
        using False True by (subst downstream_loop.simps) simp
      from "1.IH"(1)[OF False True] st show ?thesis
        unfolding eq by auto
    next
      case nseen: False
      have eq: "downstream_loop reverse seen stack =
          downstream_loop reverse (insert (last stack) seen) (butlast stack @ get_list reverse (last stack))"
        using False nseen by (subst downstream_loop.simps) simp
      from "1.IH"(2)[OF False nseen] st get_list_subset[of reverse "last stack"] show ?thesis
        unfolding eq by auto
    qed
  qed
qed

lemma finite_downstream_seen: "finite (downstream_seen u reverse)"
proof -
  have "downstream_seen u reverse \<subseteq> {} \<union> set (get_list reverse u) \<union> all_values reverse"
    unfolding downstream_seen_def by (rule downstream_loop_subset)
  moreover have "finite ({} \<union> set (get_list reverse u) \<union> all_values reverse)"
    by (simp add: all_values_def)
  ultimately show ?thesis by (rule finite_subset)
qed

lemma path_reach:
  "successively (\<lambda>a b. (a, b) \<in> E) xs \<Longrightarrow> x \<in> set xs \<Longrightarrow>
   (hd xs, x) \<in> E\<^sup>* \<and> (x, last xs) \<in> E\<^sup>*"
proof (induction xs arbitrary: x)
  case Nil
  then show ?case by simp
next
  case (Cons y ys)
  show ?case
  proof (cases ys)
    case Nil
    with Cons.prems show ?thesis by simp
  next
    case ys: (Cons z zs)
    with Cons.prems(1) have e: "(y, z) \<in> E" and p: "successively (\<lambda>a b. (a, b) \<in> E) ys"
      by simp_all
    have "z \<in> set ys" using ys by simp
    from Cons.IH[OF p this] have l: "(z, last ys) \<in> E\<^sup>*"
      by simp
    show ?thesis
    proof (cases "x = y")
      case True
      with e l ys show ?thesis
        by (auto intro: converse_rtrancl_into_rtrancl)
    next
      case False
      with Cons.prems(2) have "x \<in> set ys" by simp
      from Cons.IH[OF p this] e ys show ?thesis
        by (auto intro: converse_rtrancl_into_rtrancl)
    qed
  qed
qed

lemma recorded_cycle_nodes:
  assumes p: "successively (\<lambda>a b. (a, b) \<in> E) stack" and v: "v \<in> set stack"
      and e: "(last stack, v) \<in> E" and x: "x \<in> set (drop (index_of stack v) stack @ [v])"
  shows "(x, x) \<in> E\<^sup>+"
proof -
  let ?seg = "dropWhile (\<lambda>y. y \<noteq> v) stack"
  have seg: "drop (index_of stack v) stack = ?seg"
    by (simp add: index_of_def dropWhile_eq_drop)
  have ne: "?seg \<noteq> []"
    using v by (simp add: dropWhile_eq_Nil_conv)
  have h: "hd ?seg = v"
    using hd_dropWhile[OF ne] by simp
  have "stack = takeWhile (\<lambda>y. y \<noteq> v) stack @ ?seg" by simp
  then have ps: "successively (\<lambda>a b. (a, b) \<in> E) ?seg" and l: "last ?seg = last stack"
    using p ne by (metis successively_append_iff, metis last_appendR)
  from x seg h ne have xs: "x \<in> set ?seg"
    by (auto simp: hd_in_set[OF ne, simplified h])
  from path_reach[OF ps xs] have "(v, x) \<in> E\<^sup>*" and "(x, last stack) \<in> E\<^sup>*"
    by (simp_all add: h l)
  with e show ?thesis
    by (meson rtrancl_into_trancl1 trancl_rtrancl_trancl)
qed

lemma dfs_sound:
  "dfs n tb u s = Inr s' \<Longrightarrow> dfs_inv tb s \<Longrightarrow>
     ds_stack s = [] \<or> (last (ds_stack s), u) \<in> dep_edges tb \<Longrightarrow>
     ds_stack s' = ds_stack s \<and> dfs_inv tb s'"
  and dfs_edges_sound:
  "dfs_edges n tb vs s = Inr s' \<Longrightarrow> dfs_inv tb s \<Longrightarrow> ds_stack s \<noteq> [] \<Longrightarrow>
     \<forall>v \<in> set vs. dict_has tb v \<longrightarrow> (last (ds_stack s), v) \<in> dep_edges tb \<Longrightarrow>
     ds_stack s' = ds_stack s \<and> dfs_inv tb s'"
proof (induction n tb u s and n tb vs s arbitrary: s' and s' rule: dfs_dfs_edges.induct)
  case (1 tb u s)
  then show ?case by simp
next
  case (2 n tb u s)
  note r = "2.prems"(1) and inv = "2.prems"(2) and top = "2.prems"(3)
  from r obtain t where t: "map_of tb u = Some t"
    by (auto split: option.splits)
  let ?s0 = "s\<lparr>ds_state := (ds_state s)(u \<mapsto> 1), ds_stack := ds_stack s @ [u]\<rparr>"
  from r t obtain s1 where s1: "dfs_edges n tb (nt_dependencies t) ?s0 = Inr s1"
    and s': "s' = s1\<lparr>ds_stack := butlast (ds_stack s1), ds_state := (ds_state s1)(u \<mapsto> 2)\<rparr>"
    by (auto split: sum.splits)
  have inv0: "dfs_inv tb ?s0"
    using inv top by (auto simp: dfs_inv_def successively_append_iff)
  have ne0: "ds_stack ?s0 \<noteq> []"
    by simp
  have edges: "\<forall>v \<in> set (nt_dependencies t). dict_has tb v \<longrightarrow> (last (ds_stack ?s0), v) \<in> dep_edges tb"
    using t by (auto simp: dep_edges_def)
  from "2.IH"[OF t s1 inv0 ne0 edges] have st: "ds_stack s1 = ds_stack ?s0" and inv1: "dfs_inv tb s1"
    by auto
  from st s' have eq: "ds_stack s' = ds_stack s"
    by simp
  from inv1 inv s' eq have "dfs_inv tb s'"
    by (simp add: dfs_inv_def)
  with eq show ?case by simp
next
  case (3 n tb s)
  then show ?case by simp
next
  case (4 n tb v vs s)
  note r = "4.prems"(1) and inv = "4.prems"(2) and ne = "4.prems"(3) and edges = "4.prems"(4)
  from edges have edges': "\<forall>w \<in> set vs. dict_has tb w \<longrightarrow> (last (ds_stack s), w) \<in> dep_edges tb"
    by simp
  show ?case
  proof (cases "dict_has tb v")
    case False
    with r have rest: "dfs_edges n tb vs s = Inr s'" by simp
    from "4.IH"(1)[OF False rest inv ne edges'] show ?thesis .
  next
    case has: True
    then have nhas: "\<not> \<not> dict_has tb v" by simp
    show ?thesis
    proof (cases "state_get s v = 0")
      case True
      with r has obtain s1 where s1: "dfs n tb v s = Inr s1" and rest: "dfs_edges n tb vs s1 = Inr s'"
        by (auto split: sum.splits)
      from edges has have "ds_stack s = [] \<or> (last (ds_stack s), v) \<in> dep_edges tb" by simp
      from "4.IH"(2)[OF nhas True s1 inv this] have st1: "ds_stack s1 = ds_stack s" and inv1: "dfs_inv tb s1"
        by auto
      from ne edges' st1 have ne1: "ds_stack s1 \<noteq> []"
        and e1: "\<forall>w \<in> set vs. dict_has tb w \<longrightarrow> (last (ds_stack s1), w) \<in> dep_edges tb"
        by simp_all
      from "4.IH"(3)[OF nhas True s1 rest inv1 ne1 e1] st1 show ?thesis
        by simp
    next
      case nz: False
      show ?thesis
      proof (cases "ds_state s v = Some 1 \<and> v \<in> set (ds_stack s)")
        case True
        let ?c = "drop (index_of (ds_stack s) v) (ds_stack s) @ [v]"
        let ?s2 = "s\<lparr>ds_cycles := ds_cycles s @ [?c]\<rparr>"
        from r has nz True have rest: "dfs_edges n tb vs ?s2 = Inr s'" by simp
        from edges has have e: "(last (ds_stack s), v) \<in> dep_edges tb" by simp
        have "\<forall>x \<in> set ?c. (x, x) \<in> (dep_edges tb)\<^sup>+"
          using recorded_cycle_nodes[of "dep_edges tb" "ds_stack s" v] inv True e
          by (auto simp: dfs_inv_def)
        with inv have inv2: "dfs_inv tb ?s2"
          by (auto simp: dfs_inv_def)
        have ne2: "ds_stack ?s2 \<noteq> []" using ne by simp
        have e2: "\<forall>w \<in> set vs. dict_has tb w \<longrightarrow> (last (ds_stack ?s2), w) \<in> dep_edges tb"
          using edges' by simp
        from "4.IH"(4)[OF nhas nz True rest inv2 ne2 e2] show ?thesis
          by simp
      next
        case False
        with r has nz have rest: "dfs_edges n tb vs s = Inr s'" by auto
        from "4.IH"(5)[OF nhas nz False rest inv ne edges'] show ?thesis .
      qed
    qed
  qed
qed

lemma dfs_roots_sound:
  "dfs_roots n tb tids s = Inr s' \<Longrightarrow> dfs_inv tb s \<Longrightarrow> ds_stack s = [] \<Longrightarrow> dfs_inv tb s'"
proof (induction tids arbitrary: s)
  case Nil
  then show ?case by simp
next
  case (Cons tid tids)
  show ?case
  proof (cases "state_get s tid = 0")
    case True
    with Cons.prems(1) obtain s1 where s1: "dfs n tb tid s = Inr s1" and rest: "dfs_roots n tb tids s1 = Inr s'"
      by (auto split: sum.splits)
    from dfs_sound[OF s1 Cons.prems(2)] Cons.prems(3) have "ds_stack s1 = []" and "dfs_inv tb s1"
      by auto
    with Cons.IH[OF rest] show ?thesis by simp
  next
    case False
    with Cons.prems Cons.IH[of s] show ?thesis by simp
  qed
qed

lemma detect_cycles_sound:
  assumes "detect_cycles rt tb = Inr cycles" and "u \<in> cycle_nodes cycles"
  shows "(u, u) \<in> (dep_edges tb)\<^sup>+"
proof -
  let ?s0 = "\<lparr>ds_state = Map.empty, ds_stack = [], ds_cycles = []\<rparr>"
  from assms(1) obtain s' where r: "dfs_roots (recursion_budget rt) tb (map fst tb) ?s0 = Inr s'"
    and c: "cycles = ds_cycles s'"
    by (auto simp: detect_cycles_def split: sum.splits)
  have "dfs_inv tb ?s0" by (simp add: dfs_inv_def)
  from dfs_roots_sound[OF r this] have "dfs_inv tb s'" by simp
  with assms(2) c show ?thesis
    by (auto simp: dfs_inv_def cycle_nodes_eq)
qed


lemma map_of_foldl_related:
  assumes "map_of d0 = map_option g \<circ> map_of e0"
  shows "map_of (foldl (\<lambda>d t. dict_set d (f t) (g t)) d0 ts) =
         map_option g \<circ> map_of (foldl (\<lambda>d t. dict_set d (f t) t) e0 ts)"
  using assms
proof (induction ts arbitrary: d0 e0)
  case Nil
  then show ?case by simp
next
  case (Cons t ts)
  have "map_of (dict_set d0 (f t) (g t)) = map_option g \<circ> map_of (dict_set e0 (f t) t)"
    using Cons.prems by (auto simp: map_of_dict_set fun_eq_iff)
  from Cons.IH[OF this] show ?case by simp
qed

lemma build_graph_forward:
  assumes "build_graph tasks = Inr (tasks_by_id, forward, reverse)"
  shows "{(a, b). b \<in> set (get_list forward a)} = dep_edges tasks_by_id"
proof -
  let ?g = "\<lambda>t. filter (\<lambda>dep. dict_has (tasks_by_id_of tasks) dep) (nt_dependencies t)"
  from assms have tb: "tasks_by_id = tasks_by_id_of tasks"
    and fw: "forward = foldl (\<lambda>d t. dict_set d (nt_id t) (?g t)) [] tasks"
    by (auto simp: build_graph_def Let_def split: sum.splits)
  have m: "map_of forward = map_option ?g \<circ> map_of tasks_by_id"
    unfolding fw tb tasks_by_id_of_def by (rule map_of_foldl_related) (simp add: fun_eq_iff)
  show ?thesis
  proof (intro set_eqI iffI; clarify)
    fix a b
    assume "b \<in> set (get_list forward a)"
    then show "(a, b) \<in> dep_edges tasks_by_id"
      using m by (cases "map_of tasks_by_id a") (auto simp: get_list_def dep_edges_def tb)
  next
    fix a b
    assume "(a, b) \<in> dep_edges tasks_by_id"
    then show "b \<in> set (get_list forward a)"
      using m by (auto simp: get_list_def dep_edges_def tb)
  qed
qed

lemma cycle_set_member_reaches_itself:
  assumes "build_graph tasks = Inr (tasks_by_id, forward, reverse)"
      and "detect_cycles rt tasks_by_id = Inr cycles" and "u \<in> cycle_nodes cycles"
  shows "(u, u) \<in> {(a, b). b \<in> set (get_list forward a)}\<^sup>+"
  using detect_cycles_sound[OF assms(2,3)] build_graph_forward[OF assms(1)] by simp

text \<open>
  Claim C10. In every batch, a task on a dependency cycle (its id reaches itself along
  one or more edges of the forward graph, as does every id of a detected cycle) is in the
  set of transitive dependents that \<^verbatim>\<open>_downstream_block_count\<close> counts for it, so its count
  is at least 1 and its blocker factor at least 1/8. In the batch of two tasks depending on
  each other, the set is \<open>{1, 2}\<close> and the count 2 for each task.
\<close>

theorem cycle_member_counts_itself:
  "(build_graph tasks = Inr (tasks_by_id, forward, reverse) \<and>
    ((u, u) \<in> {(a, b). b \<in> set (get_list forward a)}\<^sup>+ \<or>
     (\<exists>cycles. detect_cycles rt tasks_by_id = Inr cycles \<and> u \<in> cycle_nodes cycles)) \<longrightarrow>
      u \<in> downstream_seen u reverse \<and> 1 \<le> downstream_block_count u reverse \<and>
      1 / 8 \<le> blocker_score (downstream_block_count u reverse)) \<and>
   build_graph
     [\<lparr>nt_id = 1, nt_title = a1, nt_due_date = b1, nt_estimated_hours = c1, nt_importance = d1,
       nt_dependencies = [2]\<rparr>,
      \<lparr>nt_id = 2, nt_title = a2, nt_due_date = b2, nt_estimated_hours = c2, nt_importance = d2,
       nt_dependencies = [1]\<rparr>]
   = Inr (tasks_by_id_of
           [\<lparr>nt_id = 1, nt_title = a1, nt_due_date = b1, nt_estimated_hours = c1, nt_importance = d1,
             nt_dependencies = [2]\<rparr>,
            \<lparr>nt_id = 2, nt_title = a2, nt_due_date = b2, nt_estimated_hours = c2, nt_importance = d2,
             nt_dependencies = [1]\<rparr>],
          [(1, [2]), (2, [1])], [(1, [2]), (2, [1])]) \<and>
   downstream_seen 1 [(1, [2]), (2, [1])] = {1, 2} \<and>
   downstream_seen 2 [(1, [2]), (2, [1])] = {1, 2} \<and>
   downstream_block_count 1 [(1, [2]), (2, [1])] = 2 \<and>
   downstream_block_count 2 [(1, [2]), (2, [1])] = 2"
proof -
  have member: "u \<in> downstream_seen u reverse"
    if g: "build_graph tasks = Inr (tasks_by_id, forward, reverse)"
    and c: "(u, u) \<in> {(a, b). b \<in> set (get_list forward a)}\<^sup>+"
  proof -
    have "{(a, b). b \<in> set (get_list forward a)}\<inverse> \<subseteq> {(a, b). b \<in> set (get_list reverse a)}"
      using build_graph_reverse_edge[OF g] by auto
    moreover from c have "(u, u) \<in> ({(a, b). b \<in> set (get_list forward a)}\<inverse>)\<^sup>+"
      by (simp add: trancl_converse)
    ultimately have "(u, u) \<in> {(a, b). b \<in> set (get_list reverse a)}\<^sup>+"
      by (meson trancl_mono)
    then show ?thesis by (rule downstream_seen_reachable)
  qed
  have s1: "downstream_seen 1 [(1, [2]), (2, [1])] = {1, 2}"
    by (auto simp add: downstream_seen_def get_list_def downstream_loop.simps)
  have s2: "downstream_seen 2 [(1, [2]), (2, [1])] = {1, 2}"
    by (auto simp add: downstream_seen_def get_list_def downstream_loop.simps)
  have b: "build_graph
     [\<lparr>nt_id = 1, nt_title = a1, nt_due_date = b1, nt_estimated_hours = c1, nt_importance = d1,
       nt_dependencies = [2]\<rparr>,
      \<lparr>nt_id = 2, nt_title = a2, nt_due_date = b2, nt_estimated_hours = c2, nt_importance = d2,
       nt_dependencies = [1]\<rparr>]
   = Inr (tasks_by_id_of
           [\<lparr>nt_id = 1, nt_title = a1, nt_due_date = b1, nt_estimated_hours = c1, nt_importance = d1,
             nt_dependencies = [2]\<rparr>,
            \<lparr>nt_id = 2, nt_title = a2, nt_due_date = b2, nt_estimated_hours = c2, nt_importance = d2,
             nt_dependencies = [1]\<rparr>],
          [(1, [2]), (2, [1])], [(1, [2]), (2, [1])])"
    by (simp add: build_graph_def tasks_by_id_of_def dict_has_def)
  have general: "u \<in> downstream_seen u reverse \<and> 1 \<le> downstream_block_count u reverse \<and>
      1 / 8 \<le> blocker_score (downstream_block_count u reverse)"
    if g: "build_graph tasks = Inr (tasks_by_id, forward, reverse)"
    and c: "(u, u) \<in> {(a, b). b \<in> set (get_list forward a)}\<^sup>+ \<or>
      (\<exists>cycles. detect_cycles rt tasks_by_id = Inr cycles \<and> u \<in> cycle_nodes cycles)"
  proof -
    from c cycle_set_member_reaches_itself[OF g]
    have "(u, u) \<in> {(a, b). b \<in> set (get_list forward a)}\<^sup>+"
      by blast
    from member[OF g this] have m: "u \<in> downstream_seen u reverse" .
    then have "downstream_seen u reverse \<noteq> {}" by blast
    with finite_downstream_seen[of u reverse] have "0 < card (downstream_seen u reverse)"
      by (simp add: card_gt_0_iff)
    then have n: "1 \<le> downstream_block_count u reverse"
      by (simp add: downstream_block_count_def)
    then have "1 / 8 \<le> real (downstream_block_count u reverse) / 8" by simp
    then have "1 / 8 \<le> blocker_score (downstream_block_count u reverse)"
      by (simp add: blocker_score_def)
    with m n show ?thesis by blast
  qed
  have cnt: "downstream_block_count 1 [(1, [2]), (2, [1])] = 2 \<and>
      downstream_block_count 2 [(1, [2]), (2, [1])] = 2"
    by (simp add: downstream_block_count_def s1 s2)
  from general b s1 s2 cnt show ?thesis
    by blast
qed

text \<open>The theorem for the graph of the two tasks depending on each other.\<close>

theorem cycle_member_counts_itself_witness:
  "(1, 1) \<in> {(a, b). b \<in> set (get_list [(1, [2]), (2, [1])] a)}\<^sup>+ \<and>
   1 \<in> downstream_seen 1 [(1, [2]), (2, [1])]"
proof -
  let ?t1 = "\<lparr>nt_id = 1, nt_title = ''a'', nt_due_date = None, nt_estimated_hours = None,
       nt_importance = None, nt_dependencies = [2]\<rparr>"
  let ?t2 = "\<lparr>nt_id = 2, nt_title = ''b'', nt_due_date = None, nt_estimated_hours = None,
       nt_importance = None, nt_dependencies = [1]\<rparr>"
  have e12: "(1, 2) \<in> {(a, b). b \<in> set (get_list [(1, [2]), (2, [1::int])] (a::int))}"
    by (simp add: get_list_def)
  have e21: "(2, 1) \<in> {(a, b). b \<in> set (get_list [(1, [2]), (2, [1::int])] (a::int))}"
    by (simp add: get_list_def)
  have c: "(1, 1) \<in> {(a, b). b \<in> set (get_list [(1, [2]), (2, [1::int])] (a::int))}\<^sup>+"
    using e12 e21 by (rule trancl_into_trancl[OF r_into_trancl])
  have g: "build_graph [?t1, ?t2] = Inr (tasks_by_id_of [?t1, ?t2], [(1, [2]), (2, [1])], [(1, [2]), (2, [1])])"
    by (simp add: build_graph_def tasks_by_id_of_def dict_has_def)
  from cycle_member_counts_itself[of "[?t1, ?t2]" "tasks_by_id_of [?t1, ?t2]" "[(1, [2]), (2, [1])]"
      "[(1, [2]), (2, [1])]" 1] g c
  show ?thesis by blast
qed

section \<open>Ranking\<close>

lemma score_task_key_fields:
  assumes "score_task weights key cycle_set reverse max_hours today t = Inr x"
  shows "sc_importance x = (case nt_importance t of None \<Rightarrow> 5 | Some v \<Rightarrow> v) \<and>
         sc_due_date x = nt_due_date t"
proof -
  from assms obtain qw where qw: "quickwin (nt_estimated_hours t) max_hours = Inr qw"
    by (auto simp: score_task_def Let_def split: sum.splits)
  show ?thesis
    using assms unfolding score_task_def Let_def qw by auto
qed

lemma key_le_amended:
  assumes "sc_importance x \<noteq> 0" and "sc_importance y \<noteq> 0"
  shows "(score_sort_key x \<le> score_sort_key y) = amended_order x y"
  using assms
  by (auto simp: score_sort_key_def amended_order_def due_or_max_def less_eq_prod_def)

lemma wd_9999: "working_days_until 3652059 3652038 = 15"
  by code_simp

lemma key_9999: "strategy_key_of ''smart_balance'' = ''smart_balance''"
  by code_simp

lemma weights_sb: "weights_of ''smart_balance'' =
    Inr \<lparr>w_urgency = 40/100, w_importance = 35/100, w_quickwin = 15/100, w_blocker = 10/100\<rparr>"
  by (simp add: weights_of_def STRATEGY_WEIGHTS_def DEFAULT_STRATEGY_def)

lemma qw_1: "quickwin (Some 1) 1 = Inr 0"
  by (simp add: quickwin_def log1p_def Let_def)

lemma ds_empty: "downstream_block_count i [(1, []), (2, [])] = 0"
  by (simp add: downstream_block_count_def downstream_seen_def get_list_def downstream_loop.simps)

lemma show_25: "show_int 25 = ''25''" "show_int 0 = ''0''"
  by (simp_all add: show_int_def show_nat.simps)

lemma round_vals: "py_round 25 = 25" "py_round 0 = 0" "py_round 1000 = 1000"
  by (simp_all add: py_round_def Let_def)

lemma ranking_of_result:
  assumes "score_tasks rt tasks strategy today = Inr res"
      and "\<forall>t \<in> set tasks. nt_importance t \<noteq> Some 0"
  shows "\<exists>scored.
           map sc_id scored = map nt_id tasks \<and>
           res_tasks res = sort_key score_sort_key scored \<and>
           sorted_wrt amended_order (res_tasks res) \<and>
           (\<forall>k. filter (\<lambda>x. score_sort_key x = k) (res_tasks res) =
                filter (\<lambda>x. score_sort_key x = k) scored)"
proof -
  from score_tasks_Inr[OF assms(1)] obtain weights reverse scored where
    l: "list_all2 (\<lambda>t x. score_task weights (strategy_key_of strategy) (cycle_nodes (res_cycles res))
                          reverse (max_hours_of tasks) today t = Inr x) tasks scored" and
    r: "res_tasks res = sort_key score_sort_key scored"
    by blast
  have "list_all2 (\<lambda>t x. nt_id t = sc_id x) tasks scored"
    using l by (rule list_all2_mono) (use score_task_fields in fastforce)
  then have "map nt_id tasks = map sc_id scored"
    by (simp add: list.rel_map list.rel_eq[symmetric] list_all2_conv_all_nth nth_equalityI)
  then have ids: "map sc_id scored = map nt_id tasks"
    by simp
  have imp: "sc_importance x \<noteq> 0" if "x \<in> set scored" for x
  proof -
    from that obtain i where i: "i < length scored" and x: "x = scored ! i"
      by (auto simp: in_set_conv_nth)
    have len: "length tasks = length scored"
      using l by (rule list_all2_lengthD)
    define t where "t = tasks ! i"
    have "t \<in> set tasks"
      using i len by (simp add: t_def)
    moreover have "score_task weights (strategy_key_of strategy) (cycle_nodes (res_cycles res))
         reverse (max_hours_of tasks) today t = Inr x"
      using list_all2_nthD2[OF l i] by (simp add: t_def x)
    ultimately have "t \<in> set tasks" and
      "score_task weights (strategy_key_of strategy) (cycle_nodes (res_cycles res))
         reverse (max_hours_of tasks) today t = Inr x"
      by simp_all
    with score_task_key_fields[of weights _ _ reverse _ today t x] assms(2) show ?thesis
      by (auto split: option.splits)
  qed
  have "sorted (map score_sort_key (sort_key score_sort_key scored))"
    by (rule sorted_sort_key)
  then have "sorted_wrt (\<lambda>x y. score_sort_key x \<le> score_sort_key y) (sort_key score_sort_key scored)"
    by (simp add: sorted_map)
  then have "sorted_wrt amended_order (sort_key score_sort_key scored)"
    by (rule sorted_wrt_mono_rel[rotated]) (simp add: key_le_amended[symmetric] imp)
  moreover have "\<forall>k. filter (\<lambda>x. score_sort_key x = k) (sort_key score_sort_key scored) =
      filter (\<lambda>x. score_sort_key x = k) scored"
    by (simp add: sort_key_stable)
  ultimately show ?thesis using ids r by auto
qed

text \<open>
  Claim C3, as stated, fails: a task without due date can be ranked before a dated task of
  equal score. Seen on 9999-12-10, a task due on 9999-12-31 has 15 working days left and
  urgency 0.25, the urgency of an undated task; the two tasks below receive the same score
  and the same sort key, since the key of an undated task carries \<^verbatim>\<open>"9999-12-31"\<close>, and the
  stable sort keeps the undated task first.
\<close>

theorem undated_before_dated_counterexample:
  "score_tasks plain_runtime
     [\<lparr>nt_id = 1, nt_title = ''b'', nt_due_date = None, nt_estimated_hours = Some 1,
       nt_importance = Some 1, nt_dependencies = []\<rparr>,
      \<lparr>nt_id = 2, nt_title = ''a'', nt_due_date = Some 3652059, nt_estimated_hours = Some 1,
       nt_importance = Some 1, nt_dependencies = []\<rparr>] ''smart_balance'' 3652038
   = Inr \<lparr>res_tasks =
       [\<lparr>sc_id = 1, sc_title = ''b'', sc_due_date = None, sc_estimated_hours = Some 1,
         sc_importance = 1, sc_dependencies = [], sc_dependents = 0, sc_score = 10,
         sc_explanation = ''U=25%, I=0%, QW=0%, Block=0 (0%), cycle_penalty=0% (strategy=smart_balance)''\<rparr>,
        \<lparr>sc_id = 2, sc_title = ''a'', sc_due_date = Some 3652059, sc_estimated_hours = Some 1,
         sc_importance = 1, sc_dependencies = [], sc_dependents = 0, sc_score = 10,
         sc_explanation = ''U=25%, I=0%, QW=0%, Block=0 (0%), cycle_penalty=0% (strategy=smart_balance)''\<rparr>],
       res_cycles = [], res_strategy_used = ''smart_balance''\<rparr> \<and>
   \<not> sorted_wrt claimed_order
       [\<lparr>sc_id = 1, sc_title = ''b'', sc_due_date = None, sc_estimated_hours = Some 1,
         sc_importance = 1, sc_dependencies = [], sc_dependents = 0, sc_score = 10,
         sc_explanation = ''U=25%, I=0%, QW=0%, Block=0 (0%), cycle_penalty=0% (strategy=smart_balance)''\<rparr>,
        \<lparr>sc_id = 2, sc_title = ''a'', sc_due_date = Some 3652059, sc_estimated_hours = Some 1,
         sc_importance = 1, sc_dependencies = [], sc_dependents = 0, sc_score = 10,
         sc_explanation = ''U=25%, I=0%, QW=0%, Block=0 (0%), cycle_penalty=0% (strategy=smart_balance)''\<rparr>]"
proof -
  let ?b = "\<lparr>nt_id = 1, nt_title = ''b'', nt_due_date = None, nt_estimated_hours = Some 1,
       nt_importance = Some 1, nt_dependencies = []\<rparr>"
  let ?a = "\<lparr>nt_id = 2, nt_title = ''a'', nt_due_date = Some 3652059, nt_estimated_hours = Some 1,
       nt_importance = Some 1, nt_dependencies = []\<rparr>"
  let ?w = "\<lparr>w_urgency = 40/100, w_importance = 35/100, w_quickwin = 15/100, w_blocker = 10/100\<rparr>"
  let ?sb = "\<lparr>sc_id = 1, sc_title = ''b'', sc_due_date = None, sc_estimated_hours = Some 1,
         sc_importance = 1, sc_dependencies = [], sc_dependents = 0, sc_score = 10,
         sc_explanation = ''U=25%, I=0%, QW=0%, Block=0 (0%), cycle_penalty=0% (strategy=smart_balance)''\<rparr>"
  let ?sa = "\<lparr>sc_id = 2, sc_title = ''a'', sc_due_date = Some 3652059, sc_estimated_hours = Some 1,
         sc_importance = 1, sc_dependencies = [], sc_dependents = 0, sc_score = 10,
         sc_explanation = ''U=25%, I=0%, QW=0%, Block=0 (0%), cycle_penalty=0% (strategy=smart_balance)''\<rparr>"
  have g: "build_graph [?b, ?a] = Inr (tasks_by_id_of [?b, ?a], [(1, []), (2, [])], [(1, []), (2, [])])"
    by (simp add: build_graph_def tasks_by_id_of_def dict_has_def Let_def)
  obtain k where b: "recursion_budget plain_runtime = Suc (Suc k)"
    using plain_budget by blast
  have c: "detect_cycles plain_runtime (tasks_by_id_of [?b, ?a]) = Inr []"
    by (simp add: dfs_eval b)
  have mh: "max_hours_of [?b, ?a] = 1"
    by (simp add: max_hours_of_def py_max_def)
  have ub: "urgency None 3652038 = 25 / 100"
    by (simp add: urgency_def)
  have ua: "urgency (Some 3652059) 3652038 = 25 / 100"
    by (simp add: urgency_def wd_9999)
  have sb: "score_task ?w ''smart_balance'' {} [(1, []), (2, [])] 1 3652038 ?b = Inr ?sb"
    by (simp add: score_task_def Let_def ub qw_1 ds_empty importance_def blocker_score_def
        py_round2_def round_vals show_25 trunc_def)
  have sa: "score_task ?w ''smart_balance'' {} [(1, []), (2, [])] 1 3652038 ?a = Inr ?sa"
    by (simp add: score_task_def Let_def ua qw_1 ds_empty importance_def blocker_score_def
        py_round2_def round_vals show_25 trunc_def)
  have keys: "score_sort_key ?sb = score_sort_key ?sa"
    by (simp add: score_sort_key_def date_max_def)
  have srt: "sort_key score_sort_key [?sb, ?sa] = [?sb, ?sa]"
    by (simp add: keys)
  have loop: "score_loop ?w ''smart_balance'' {} [(1, []), (2, [])] 1 3652038 [?b, ?a] [] = Inr [?sb, ?sa]"
    by (simp only: score_loop.simps sb sa sum.case append.simps)
  have cn: "cycle_nodes [] = {}"
    by (simp add: cycle_nodes_def)
  have run: "score_tasks plain_runtime [?b, ?a] ''smart_balance'' 3652038
      = Inr \<lparr>res_tasks = [?sb, ?sa], res_cycles = [], res_strategy_used = ''smart_balance''\<rparr>"
    by (simp only: score_tasks_def key_9999 Let_def weights_sb g c mh sum.case prod.case cn loop srt)
  have viol: "\<not> sorted_wrt claimed_order [?sb, ?sa]"
    by (simp add: claimed_order_def)
  from run viol show ?thesis by blast
qed

text \<open>
  Claim C3, amended. For every batch of tasks with an importance that is absent or not 0,
  the task list that \<^verbatim>\<open>score_tasks\<close> returns is the list of scored records, one per task in
  input order, sorted by descending score, then ascending due date with an absent due date
  read as 9999-12-31 (after every earlier date, level with that date), then descending
  importance with an absent importance read as 5. The sort is stable: records with equal
  sort keys keep their input order. The result is a function of the tasks, the strategy,
  the reference date and the interpreter; \<^verbatim>\<open>score_tasks\<close> does return when the estimated hours
  are absent or positive and the interpreter lets \<^verbatim>\<open>dfs\<close> nest as many calls as the batch has
  ids.
\<close>

theorem ranking_order:
  assumes "\<forall>t \<in> set tasks. nt_importance t \<noteq> Some 0"
  shows "(\<forall>res. score_tasks rt tasks strategy today = Inr res \<longrightarrow>
            (\<exists>scored.
               map sc_id scored = map nt_id tasks \<and>
               res_tasks res = sort_key score_sort_key scored \<and>
               sorted_wrt amended_order (res_tasks res) \<and>
               (\<forall>k. filter (\<lambda>x. score_sort_key x = k) (res_tasks res) =
                    filter (\<lambda>x. score_sort_key x = k) scored))) \<and>
         ((\<forall>t \<in> set tasks. hours_ok t) \<and> card (nt_id ` set tasks) \<le> recursion_budget rt \<longrightarrow>
            (\<exists>res. score_tasks rt tasks strategy today = Inr res))"
  using ranking_of_result[of rt tasks strategy today, OF _ assms]
    score_tasks_returns[of tasks rt strategy today]
  by blast

text \<open>The theorem for a batch of an undated and a dated task.\<close>

theorem ranking_order_witness:
  "\<exists>res. score_tasks plain_runtime
       [\<lparr>nt_id = 1, nt_title = ''b'', nt_due_date = None, nt_estimated_hours = Some 1,
         nt_importance = Some 1, nt_dependencies = []\<rparr>,
        \<lparr>nt_id = 2, nt_title = ''a'', nt_due_date = Some 739527, nt_estimated_hours = Some 1,
         nt_importance = Some 7, nt_dependencies = []\<rparr>] ''smart_balance'' 739525 = Inr res \<and>
     sorted_wrt amended_order (res_tasks res)"
proof -
  let ?ts = "[\<lparr>nt_id = 1, nt_title = ''b'', nt_due_date = None, nt_estimated_hours = Some 1,
         nt_importance = Some 1, nt_dependencies = []\<rparr>,
        \<lparr>nt_id = 2, nt_title = ''a'', nt_due_date = Some 739527, nt_estimated_hours = Some 1,
         nt_importance = Some 7, nt_dependencies = []\<rparr>]"
  have ok: "\<forall>t \<in> set ?ts. hours_ok t"
    by (simp add: hours_ok_def)
  have imp: "\<forall>t \<in> set ?ts. nt_importance t \<noteq> Some 0"
    by simp
  have "card (nt_id ` set ?ts) \<le> 2"
    by (rule order_trans[OF card_image_le]) (simp_all add: card_insert_if)
  then have small: "card (nt_id ` set ?ts) \<le> recursion_budget plain_runtime"
    by (simp add: plain_runtime_def)
  note inst = ranking_order[OF imp, of plain_runtime "''smart_balance''" 739525]
  from inst ok small obtain res where
    r: "score_tasks plain_runtime ?ts ''smart_balance'' 739525 = Inr res"
    by blast
  with inst have "sorted_wrt amended_order (res_tasks res)"
    by blast
  with r show ?thesis
    by blast
qed

end
